theory Spec2Isabelle
  imports Main
begin

section \<open>Python strings\<close>

text \<open>
  A Python \<^verbatim>\<open>str\<close> is modelled as a \<^typ>\<open>string\<close>, one \<^typ>\<open>char\<close> per code point.
  The model is that of ASCII text: \<^verbatim>\<open>str.lower\<close>, \<^verbatim>\<open>str.capitalize\<close> and the
  \<^verbatim>\<open>IGNORECASE\<close> flag act on the letters A-Z and a-z only, and the white space of
  \<^verbatim>\<open>str.strip\<close> and of \<^verbatim>\<open>\s\<close> is the ASCII part of Python's white space
  (code points 9-13 and 28-32).  E-mail addresses, domains and the configuration
  of the program are ASCII.
\<close>

definition is_upper :: "char \<Rightarrow> bool" where
  "is_upper c = (65 \<le> (of_char c :: nat) \<and> (of_char c :: nat) \<le> 90)"

definition is_lower :: "char \<Rightarrow> bool" where
  "is_lower c = (97 \<le> (of_char c :: nat) \<and> (of_char c :: nat) \<le> 122)"

definition lower_char :: "char \<Rightarrow> char" where
  "lower_char c = (if is_upper c then char_of ((of_char c :: nat) + 32) else c)"

definition upper_char :: "char \<Rightarrow> char" where
  "upper_char c = (if is_lower c then char_of ((of_char c :: nat) - 32) else c)"

definition is_space :: "char \<Rightarrow> bool" where
  "is_space c = ((9 \<le> (of_char c :: nat) \<and> (of_char c :: nat) \<le> 13) \<or>
                 (28 \<le> (of_char c :: nat) \<and> (of_char c :: nat) \<le> 32))"

text \<open>\<^verbatim>\<open>s.lower()\<close>\<close>

definition lower :: "string \<Rightarrow> string" where
  "lower s = map lower_char s"

text \<open>\<^verbatim>\<open>s.strip()\<close>\<close>

definition strip :: "string \<Rightarrow> string" where
  "strip s = rev (dropWhile is_space (rev (dropWhile is_space s)))"

text \<open>\<^verbatim>\<open>s.replace(c, "")\<close> for a one-character \<^verbatim>\<open>c\<close>\<close>

definition remove_char :: "char \<Rightarrow> string \<Rightarrow> string" where
  "remove_char c s = filter (\<lambda>x. x \<noteq> c) s"

text \<open>\<^verbatim>\<open>s.startswith(p)\<close>\<close>

definition startswith :: "string \<Rightarrow> string \<Rightarrow> bool" where
  "startswith p s = (take (length p) s = p)"

text \<open>\<^verbatim>\<open>s.split(c)\<close> for a one-character separator: the result is never empty,
  and the empty string splits into one empty part.\<close>

fun split :: "char \<Rightarrow> string \<Rightarrow> string list" where
  "split c [] = [[]]"
| "split c (x # xs) =
     (if x = c then [] # split c xs
      else (case split c xs of
              [] \<Rightarrow> [[x]]
            | p # ps \<Rightarrow> (x # p) # ps))"

text \<open>\<^verbatim>\<open>s.split(c, 1)\<close>: at most one split, at the first separator.\<close>

definition split_max1 :: "char \<Rightarrow> string \<Rightarrow> string list" where
  "split_max1 c s =
     (if c \<in> set s then [takeWhile (\<lambda>x. x \<noteq> c) s, drop 1 (dropWhile (\<lambda>x. x \<noteq> c) s)]
      else [s])"

text \<open>\<^verbatim>\<open>sep.join(parts)\<close>\<close>

fun join :: "string \<Rightarrow> string list \<Rightarrow> string" where
  "join sep [] = []"
| "join sep [p] = p"
| "join sep (p # q # ps) = p @ sep @ join sep (q # ps)"

text \<open>\<^verbatim>\<open>s.capitalize()\<close>: the first character upper-cased, all the others lower-cased.\<close>

definition capitalize :: "string \<Rightarrow> string" where
  "capitalize s = (case s of [] \<Rightarrow> [] | c # cs \<Rightarrow> upper_char c # lower cs)"

section \<open>Domain normalisation\<close>

text \<open>The nested function \<^verbatim>\<open>base_domain\<close> of \<^verbatim>\<open>attendees_to_company\<close>.  Its argument
  is always a \<^verbatim>\<open>str\<close>, for which \<^verbatim>\<open>d or ""\<close> is \<^verbatim>\<open>d\<close>.\<close>

definition base_domain :: "string \<Rightarrow> string" where
  "base_domain d0 =
     (let d = remove_char (CHR ''@'') (strip (lower d0));
          d = (if startswith ''www.'' d then drop 4 d else d);
          parts = split (CHR ''.'') d
      in if length parts \<ge> 3
         then join ''.'' (drop (length parts - 2) parts)
         else d)"

text \<open>The nested function \<^verbatim>\<open>pretty_from_domain\<close>.  \<^verbatim>\<open>split(".")[0]\<close> is the first
  part of a split, which always exists.\<close>

definition pretty_from_domain :: "string \<Rightarrow> string" where
  "pretty_from_domain d =
     (let core = hd (split (CHR ''.'') (base_domain d))
      in if core \<noteq> [] then capitalize core else ''Unknown'')"

section \<open>Python values and exceptions\<close>

datatype py_error = AttributeError | IndexError | ValueError

text \<open>
  The value stored in a dict: \<^verbatim>\<open>None\<close>, a \<^verbatim>\<open>str\<close>, or any other object (a number, a
  list, a dict, a bool), of which only the truth value matters: it has no
  \<^verbatim>\<open>lower\<close> or \<^verbatim>\<open>strip\<close> method, so calling one raises \<^verbatim>\<open>AttributeError\<close>.
\<close>

datatype pyval = PyNone | PyStr string | PyOther bool

type_synonym pydict = "string \<rightharpoonup> pyval"

text \<open>\<^verbatim>\<open>d.get(k)\<close>\<close>

definition dict_get :: "pydict \<Rightarrow> string \<Rightarrow> pyval" where
  "dict_get d k = (case d k of None \<Rightarrow> PyNone | Some v \<Rightarrow> v)"

fun truthy :: "pyval \<Rightarrow> bool" where
  "truthy PyNone = False"
| "truthy (PyStr s) = (s \<noteq> [])"
| "truthy (PyOther t) = t"

text \<open>\<^verbatim>\<open>v or ""\<close>\<close>

definition or_empty :: "pyval \<Rightarrow> pyval" where
  "or_empty v = (if truthy v then v else PyStr [])"

text \<open>The receiver of a \<^verbatim>\<open>str\<close> method call.\<close>

fun as_str :: "pyval \<Rightarrow> py_error + string" where
  "as_str (PyStr s) = Inr s"
| "as_str PyNone = Inl AttributeError"
| "as_str (PyOther t) = Inl AttributeError"

text \<open>
  An entry of an attendee list: a dict, a \<^verbatim>\<open>str\<close>, or any other object, which
  is given by the text that \<^verbatim>\<open>str(a)\<close> returns for it.
\<close>

datatype attendee = ADict pydict | AStr string | AOther string

section \<open>Configuration\<close>

text \<open>The process environment, and \<^verbatim>\<open>os.getenv(name, default)\<close>.\<close>

type_synonym environ = "string \<rightharpoonup> string"

definition getenv :: "environ \<Rightarrow> string \<Rightarrow> string \<Rightarrow> string" where
  "getenv env name dflt = (case env name of None \<Rightarrow> dflt | Some v \<Rightarrow> v)"

text \<open>\<^verbatim>\<open>[d.strip().lower() for d in raw.split(",") if d.strip()]\<close>\<close>

definition domain_list :: "string \<Rightarrow> string list" where
  "domain_list raw = [lower (strip d). d \<leftarrow> split (CHR '','') raw, strip d \<noteq> []]"

definition INTERNAL :: "environ \<Rightarrow> string set" where
  "INTERNAL env = set (domain_list (getenv env ''INTERNAL_DOMAINS''
     (''kempfenterprise.com,gmail.com,outlook.com,hotmail.com,yahoo.com,'' @
      ''icloud.com,aol.com,proton.me,protonmail.com,me.com'')))"

definition IGNORE :: "environ \<Rightarrow> string set" where
  "IGNORE env = set (domain_list (getenv env ''IGNORE_DOMAINS''
     ''zoom.us,meetup.com,calendar.google.com,teams.microsoft.com''))"

definition PRIORITY :: "environ \<Rightarrow> string list" where
  "PRIORITY env = domain_list (getenv env ''DOMAIN_PRIORITY'' [])"

text \<open>\<^verbatim>\<open>[p.strip() for p in raw.split(",") if ":" in p]\<close>\<close>

definition name_map_pairs :: "string \<Rightarrow> string list" where
  "name_map_pairs raw = [strip p. p \<leftarrow> split (CHR '','') raw, CHR '':'' \<in> set p]"

text \<open>The loop that fills \<^verbatim>\<open>NAME_MAP\<close>: the unpacking \<^verbatim>\<open>dom, name = pair.split(":", 1)\<close>
  raises \<^verbatim>\<open>ValueError\<close> unless the split has two parts; a later entry for a
  domain replaces an earlier one.\<close>

fun name_map_loop :: "string list \<Rightarrow> (string \<rightharpoonup> string) \<Rightarrow> py_error + (string \<rightharpoonup> string)" where
  "name_map_loop [] m = Inr m"
| "name_map_loop (pair # pairs) m =
     (case split_max1 (CHR '':'') pair of
        [dom', name] \<Rightarrow> name_map_loop pairs (m(lower (strip dom') \<mapsto> strip name))
      | _ \<Rightarrow> Inl ValueError)"

definition NAME_MAP :: "environ \<Rightarrow> py_error + (string \<rightharpoonup> string)" where
  "NAME_MAP env = name_map_loop (name_map_pairs (getenv env ''DOMAIN_NAME_MAP'' [])) Map.empty"

section \<open>Candidate domains\<close>

text \<open>The e-mail text of one attendee: \<^verbatim>\<open>(a.get("email") or "").lower().strip()\<close> for a
  dict, \<^verbatim>\<open>str(a).lower().strip()\<close> otherwise.\<close>

fun attendee_email :: "attendee \<Rightarrow> py_error + string" where
  "attendee_email (ADict a) =
     (case as_str (or_empty (dict_get a ''email'')) of
        Inl err \<Rightarrow> Inl err
      | Inr s \<Rightarrow> Inr (strip (lower s)))"
| "attendee_email (AStr a) = Inr (strip (lower a))"
| "attendee_email (AOther a) = Inr (strip (lower a))"

text \<open>\<^verbatim>\<open>xs[i]\<close> for an index \<open>i\<close> that is not negative\<close>

definition getitem :: "'a list \<Rightarrow> nat \<Rightarrow> py_error + 'a" where
  "getitem xs i = (if i < length xs then Inr (xs ! i) else Inl IndexError)"

text \<open>Stage 1, the loop over the attendees; \<open>domains\<close> is the list built so far.\<close>

fun collect_domains :: "attendee list \<Rightarrow> string list \<Rightarrow> py_error + string list" where
  "collect_domains [] domains = Inr domains"
| "collect_domains (a # as) domains =
     (case attendee_email a of
        Inl err \<Rightarrow> Inl err
      | Inr email \<Rightarrow>
          if CHR ''@'' \<in> set email
          then (case getitem (split_max1 (CHR ''@'') email) 1 of
                  Inl err \<Rightarrow> Inl err
                | Inr dom' \<Rightarrow> collect_domains as (domains @ [base_domain dom']))
          else collect_domains as domains)"

text \<open>\<^verbatim>\<open>[d for d in domains if d and d not in INTERNAL and d not in IGNORE]\<close>\<close>

definition external_of :: "environ \<Rightarrow> string list \<Rightarrow> string list" where
  "external_of env domains =
     [d \<leftarrow> domains. d \<noteq> [] \<and> d \<notin> INTERNAL env \<and> d \<notin> IGNORE env]"

section \<open>The stages of the resolver\<close>

record company =
  companyDomain :: string
  companyName :: string

text \<open>\<^verbatim>\<open>NAME_MAP.get(d, pretty_from_domain(d))\<close>\<close>

definition display_name :: "(string \<rightharpoonup> string) \<Rightarrow> string \<Rightarrow> string" where
  "display_name name_map d =
     (case name_map d of Some name \<Rightarrow> name | None \<Rightarrow> pretty_from_domain d)"

definition winner :: "(string \<rightharpoonup> string) \<Rightarrow> string \<Rightarrow> company" where
  "winner name_map d = \<lparr>companyDomain = d, companyName = display_name name_map d\<rparr>"

definition unknown :: company where
  "unknown = \<lparr>companyDomain = [], companyName = ''Unknown''\<rparr>"

text \<open>Stage 2, the loop over \<^verbatim>\<open>PRIORITY\<close>: the first entry whose base domain is among
  the externals.\<close>

fun priority_stage :: "string list \<Rightarrow> string list \<Rightarrow> string option" where
  "priority_stage [] external = None"
| "priority_stage (p # ps) external =
     (let pb = base_domain p
      in if pb \<in> set external then Some pb else priority_stage ps external)"

text \<open>
  Stage 3 uses \<^verbatim>\<open>collections.Counter\<close> of the standard library: a dict, which keeps
  its keys in the order of their first insertion, with the number of occurrences of
  each key.  \<^verbatim>\<open>most_common(1)\<close> is \<^verbatim>\<open>heapq.nlargest(1, items, key=count)\<close>, which for
  one element is \<^verbatim>\<open>max(items, key=count)\<close>: the first item among those of the
  greatest count.
\<close>

fun counter_add :: "(string \<times> nat) list \<Rightarrow> string \<Rightarrow> (string \<times> nat) list" where
  "counter_add [] x = [(x, 1)]"
| "counter_add ((k, n) # kns) x =
     (if k = x then (k, n + 1) # kns else (k, n) # counter_add kns x)"

definition Counter :: "string list \<Rightarrow> (string \<times> nat) list" where
  "Counter xs = foldl counter_add [] xs"

fun max_by_count :: "(string \<times> nat) \<Rightarrow> (string \<times> nat) list \<Rightarrow> (string \<times> nat)" where
  "max_by_count best [] = best"
| "max_by_count best (x # xs) = max_by_count (if snd best < snd x then x else best) xs"

definition most_common1 :: "(string \<times> nat) list \<Rightarrow> (string \<times> nat) list" where
  "most_common1 items = (case items of [] \<Rightarrow> [] | x # xs \<Rightarrow> [max_by_count x xs])"

section \<open>Regular expressions\<close>

text \<open>
  The fragment of Python's \<^verbatim>\<open>re\<close> that the three patterns of stage 5 use, with the
  semantics of its backtracking matcher: alternatives are tried from left to right,
  a repetition \<^verbatim>\<open>x{n,}\<close> is greedy (it takes as many characters as it can and gives
  them back one at a time), and \<^verbatim>\<open>re.search\<close> returns the match at the leftmost
  position where the pattern matches.  Under \<^verbatim>\<open>IGNORECASE\<close> a literal matches both
  cases of its letter, and a set matches a character when the set contains its
  lower-case or its upper-case form.
\<close>

datatype atom = Range char char | Single char

datatype item = Lit char | Set "atom list" | Space

datatype regex =
    Eps
  | One item
  | Seq regex regex
  | Alt regex regex
  | AtLeast nat item
  | Group regex

fun atom_has :: "atom \<Rightarrow> char \<Rightarrow> bool" where
  "atom_has (Range lo hi) c = ((of_char lo :: nat) \<le> of_char c \<and> (of_char c :: nat) \<le> of_char hi)"
| "atom_has (Single x) c = (c = x)"

fun item_matches :: "bool \<Rightarrow> item \<Rightarrow> char \<Rightarrow> bool" where
  "item_matches ic (Lit x) c = (if ic then lower_char c = lower_char x else c = x)"
| "item_matches ic (Set as) c =
     (if ic then list_ex (\<lambda>a. atom_has a (lower_char c) \<or> atom_has a (upper_char c)) as
      else list_ex (\<lambda>a. atom_has a c) as)"
| "item_matches ic Space c = is_space c"

text \<open>
  \<open>greedy p n s k\<close> matches \<open>n\<close> or more characters that satisfy \<open>p\<close> at the head of
  \<open>s\<close>, the longest run first, and passes the rest of the text to the
  continuation \<open>k\<close>; \<open>None\<close> is failure, on which the caller backtracks.
\<close>

fun greedy :: "(char \<Rightarrow> bool) \<Rightarrow> nat \<Rightarrow> string \<Rightarrow> (string \<Rightarrow> 'r option) \<Rightarrow> 'r option" where
  "greedy p n [] k = (if n = 0 then k [] else None)"
| "greedy p n (c # cs) k =
     (if p c
      then (case greedy p (n - 1) cs k of
              Some r \<Rightarrow> Some r
            | None \<Rightarrow> if n = 0 then k (c # cs) else None)
      else if n = 0 then k (c # cs) else None)"

text \<open>
  \<open>matches ic r s g k\<close> matches \<open>r\<close> at the head of \<open>s\<close>; \<open>g\<close> is the text of
  group 1 so far (\<open>None\<close> while the group has not taken part in the match), and the
  continuation gets the rest of the text and the group.
\<close>

fun matches :: "bool \<Rightarrow> regex \<Rightarrow> string \<Rightarrow> string option \<Rightarrow>
    (string \<Rightarrow> string option \<Rightarrow> 'r option) \<Rightarrow> 'r option" where
  "matches ic Eps s g k = k s g"
| "matches ic (One i) s g k =
     (case s of [] \<Rightarrow> None | c # cs \<Rightarrow> if item_matches ic i c then k cs g else None)"
| "matches ic (Seq r1 r2) s g k = matches ic r1 s g (\<lambda>s' g'. matches ic r2 s' g' k)"
| "matches ic (Alt r1 r2) s g k =
     (case matches ic r1 s g k of Some r \<Rightarrow> Some r | None \<Rightarrow> matches ic r2 s g k)"
| "matches ic (AtLeast n i) s g k = greedy (item_matches ic i) n s (\<lambda>s'. k s' g)"
| "matches ic (Group r) s g k =
     matches ic r s g (\<lambda>s' g'. k s' (Some (take (length s - length s') s)))"

text \<open>\<^verbatim>\<open>re.search\<close>: \<open>None\<close> when there is no match, otherwise \<^verbatim>\<open>m.group(1)\<close> of the
  leftmost match (itself \<open>None\<close> when group 1 took no part in it).\<close>

fun search :: "bool \<Rightarrow> regex \<Rightarrow> string \<Rightarrow> string option option" where
  "search ic r [] = matches ic r [] None (\<lambda>s' g. Some g)"
| "search ic r (c # cs) =
     (case matches ic r (c # cs) None (\<lambda>s' g. Some g) of
        Some g \<Rightarrow> Some g
      | None \<Rightarrow> search ic r cs)"

text \<open>A string of literal characters.\<close>

fun lits :: "string \<Rightarrow> regex" where
  "lits [] = Eps"
| "lits (c # cs) = Seq (One (Lit c)) (lits cs)"

text \<open>\<^verbatim>\<open>([A-Z][A-Za-z0-9&.\- ]{2,})\<close>\<close>

definition phrase :: regex where
  "phrase = Group (Seq (One (Set [Range (CHR ''A'') (CHR ''Z'')]))
                       (AtLeast 2 (Set [Range (CHR ''A'') (CHR ''Z''), Range (CHR ''a'') (CHR ''z''),
                                        Range (CHR ''0'') (CHR ''9''), Single (CHR ''&''),
                                        Single (CHR ''.''), Single (CHR ''-''), Single (CHR '' '')])))"

text \<open>\<^verbatim>\<open>(?:with|for)\s+([A-Z][A-Za-z0-9&.\- ]{2,})\<close>\<close>

definition pattern_with_for :: regex where
  "pattern_with_for = Seq (Alt (lits ''with'') (lits ''for'')) (Seq (AtLeast 1 Space) phrase)"

text \<open>\<^verbatim>\<open>POC[:\-]\s*([A-Z][A-Za-z0-9&.\- ]{2,})\<close>\<close>

definition pattern_poc :: regex where
  "pattern_poc =
     Seq (lits ''POC'') (Seq (One (Set [Single (CHR '':''), Single (CHR ''-'')]))
                             (Seq (AtLeast 0 Space) phrase))"

text \<open>\<^verbatim>\<open>\(([A-Z][A-Za-z0-9&.\- ]{2,})\)\<close>\<close>

definition pattern_paren :: regex where
  "pattern_paren = Seq (One (Lit (CHR ''(''))) (Seq phrase (One (Lit (CHR '')''))))"

section \<open>The resolver\<close>

text \<open>
  Stage 5.  The first two searches have \<^verbatim>\<open>flags=re.IGNORECASE\<close>, the third has no
  flag; a match object is always true, so \<^verbatim>\<open>or\<close> yields the first search that
  matched.
\<close>

definition first_match :: "string \<Rightarrow> string option option" where
  "first_match text =
     (case search True pattern_with_for text of
        Some g \<Rightarrow> Some g
      | None \<Rightarrow>
          (case search True pattern_poc text of
             Some g \<Rightarrow> Some g
           | None \<Rightarrow> search False pattern_paren text))"

definition stop_words :: "string set" where
  "stop_words = {''poc'', ''call'', ''meeting'', ''demo'', ''discovery''}"

text \<open>\<^verbatim>\<open>s or ""\<close> for an optional \<^verbatim>\<open>str\<close>\<close>

definition str_or_empty :: "string option \<Rightarrow> string" where
  "str_or_empty s = (case s of None \<Rightarrow> [] | Some t \<Rightarrow> t)"

definition text_stage :: "string option \<Rightarrow> string option \<Rightarrow> py_error + company" where
  "text_stage event_summary event_description =
     (let text = join '' '' [str_or_empty event_summary, str_or_empty event_description]
      in case first_match text of
           None \<Rightarrow> Inr unknown
         | Some None \<Rightarrow> Inl AttributeError
         | Some (Some g) \<Rightarrow>
             (let cand = strip g
              in if lower cand \<notin> stop_words
                 then Inr \<lparr>companyDomain = [], companyName = cand\<rparr>
                 else Inr unknown))"

text \<open>\<^verbatim>\<open>attendees or []\<close>\<close>

definition list_or_empty :: "'a list option \<Rightarrow> 'a list" where
  "list_or_empty xs = (case xs of None \<Rightarrow> [] | Some ys \<Rightarrow> ys)"

text \<open>Stage 4, the loop over the unfiltered domains: the first one that is neither
  empty, nor internal, nor ignored.\<close>

definition unfiltered_fallback :: "environ \<Rightarrow> string list \<Rightarrow> string option" where
  "unfiltered_fallback env domains =
     find (\<lambda>d. d \<noteq> [] \<and> d \<notin> INTERNAL env \<and> d \<notin> IGNORE env) domains"

text \<open>\<^verbatim>\<open>attendees_to_company\<close> of \<^verbatim>\<open>google_helpers.py\<close>, with the environment it reads
  as a parameter.\<close>

definition attendees_to_company :: "environ \<Rightarrow> attendee list option \<Rightarrow>
    string option \<Rightarrow> string option \<Rightarrow> py_error + company" where
  "attendees_to_company env attendees event_summary event_description =
     (case NAME_MAP env of
        Inl err \<Rightarrow> Inl err
      | Inr name_map \<Rightarrow>
     (case collect_domains (list_or_empty attendees) [] of
        Inl err \<Rightarrow> Inl err
      | Inr domains \<Rightarrow>
     (let external = external_of env domains
      in case priority_stage (PRIORITY env) external of
           Some pb \<Rightarrow> Inr (winner name_map pb)
         | None \<Rightarrow>
             if external \<noteq> []
             then (case getitem (most_common1 (Counter external)) 0 of
                     Inl err \<Rightarrow> Inl err
                   | Inr (dom', _) \<Rightarrow> Inr (winner name_map dom'))
             else (case unfiltered_fallback env domains of
                     Some d \<Rightarrow> Inr (winner name_map d)
                   | None \<Rightarrow> text_stage event_summary event_description))))"

text \<open>The same function with stage 4 deleted.\<close>

definition attendees_to_company_without_stage4 :: "environ \<Rightarrow> attendee list option \<Rightarrow>
    string option \<Rightarrow> string option \<Rightarrow> py_error + company" where
  "attendees_to_company_without_stage4 env attendees event_summary event_description =
     (case NAME_MAP env of
        Inl err \<Rightarrow> Inl err
      | Inr name_map \<Rightarrow>
     (case collect_domains (list_or_empty attendees) [] of
        Inl err \<Rightarrow> Inl err
      | Inr domains \<Rightarrow>
     (let external = external_of env domains
      in case priority_stage (PRIORITY env) external of
           Some pb \<Rightarrow> Inr (winner name_map pb)
         | None \<Rightarrow>
             if external \<noteq> []
             then (case getitem (most_common1 (Counter external)) 0 of
                     Inl err \<Rightarrow> Inl err
                   | Inr (dom', _) \<Rightarrow> Inr (winner name_map dom'))
             else text_stage event_summary event_description)))"

section \<open>The e-mail addresses of an event\<close>

text \<open>
  The event dict of \<^verbatim>\<open>collect_event_emails\<close> in \<^verbatim>\<open>app.py\<close>, by the three keys that the
  function reads; a field is \<open>None\<close> when the key is absent or holds \<^verbatim>\<open>None\<close>.
\<close>

record event =
  ev_attendees :: "attendee list option"
  ev_organizer :: "pydict option"
  ev_creator :: "pydict option"

text \<open>\<^verbatim>\<open>(d.get("email") or "").strip().lower()\<close>\<close>

definition dict_email :: "pydict \<Rightarrow> py_error + string" where
  "dict_email d =
     (case as_str (or_empty (dict_get d ''email'')) of
        Inl err \<Rightarrow> Inl err
      | Inr s \<Rightarrow> Inr (lower (strip s)))"

text \<open>The loop over the attendees: a dict gives its e-mail unless that is empty, a
  \<^verbatim>\<open>str\<close> is taken as it is, anything else is passed over.\<close>

fun attendee_loop :: "attendee list \<Rightarrow> string list \<Rightarrow> py_error + string list" where
  "attendee_loop [] emails = Inr emails"
| "attendee_loop (ADict a # as) emails =
     (case dict_email a of
        Inl err \<Rightarrow> Inl err
      | Inr em \<Rightarrow> if em \<noteq> [] then attendee_loop as (emails @ [em]) else attendee_loop as emails)"
| "attendee_loop (AStr a # as) emails = attendee_loop as (emails @ [lower (strip a)])"
| "attendee_loop (AOther a # as) emails = attendee_loop as emails"

text \<open>The loop over \<^verbatim>\<open>organizer\<close> and \<^verbatim>\<open>creator\<close>; \<^verbatim>\<open>e.get(key) or {}\<close> is the empty
  dict when the key is absent.\<close>

fun info_loop :: "pydict option list \<Rightarrow> string list \<Rightarrow> py_error + string list" where
  "info_loop [] emails = Inr emails"
| "info_loop (info # infos) emails =
     (case dict_email (case info of None \<Rightarrow> Map.empty | Some d \<Rightarrow> d) of
        Inl err \<Rightarrow> Inl err
      | Inr em \<Rightarrow> if em \<noteq> [] then info_loop infos (emails @ [em]) else info_loop infos emails)"

definition gather_emails :: "event \<Rightarrow> py_error + string list" where
  "gather_emails e =
     (case attendee_loop (list_or_empty (ev_attendees e)) [] of
        Inl err \<Rightarrow> Inl err
      | Inr emails \<Rightarrow> info_loop [ev_organizer e, ev_creator e] emails)"

text \<open>The last loop: \<open>out\<close> and \<open>seen\<close> are the list and the set built so far.\<close>

fun dedup_loop :: "string list \<Rightarrow> string list \<Rightarrow> string set \<Rightarrow> string list" where
  "dedup_loop [] out seen = out"
| "dedup_loop (em # emails) out seen =
     (if em \<notin> seen then dedup_loop emails (out @ [em]) (insert em seen)
      else dedup_loop emails out seen)"

definition collect_event_emails :: "event \<Rightarrow> py_error + string list" where
  "collect_event_emails e =
     (case gather_emails e of
        Inl err \<Rightarrow> Inl err
      | Inr emails \<Rightarrow> Inr (dedup_loop emails [] {}))"

section \<open>Notions for stating the properties\<close>

text \<open>The position of the first occurrence of \<open>x\<close> in \<open>xs\<close> (the length of \<open>xs\<close>
  when there is none).\<close>

definition first_index :: "'a list \<Rightarrow> 'a \<Rightarrow> nat" where
  "first_index xs x = length (takeWhile (\<lambda>y. y \<noteq> x) xs)"

text \<open>The elements of a list in the order of their first occurrence, each one once.\<close>

fun firsts :: "'a list \<Rightarrow> 'a list" where
  "firsts [] = []"
| "firsts (x # xs) = x # filter (\<lambda>y. y \<noteq> x) (firsts xs)"

text \<open>A pattern in which group 1 takes part in every match.\<close>

fun sets_group :: "regex \<Rightarrow> bool" where
  "sets_group (Group r) = True"
| "sets_group (Seq r1 r2) = (sets_group r1 \<or> sets_group r2)"
| "sets_group (Alt r1 r2) = (sets_group r1 \<and> sets_group r2)"
| "sets_group r = False"

text \<open>An attendee that is not a dict, or a dict whose \<^verbatim>\<open>email\<close> entry is absent,
  \<^verbatim>\<open>None\<close>, a \<^verbatim>\<open>str\<close> or a false value: not a true value of another type.\<close>

fun well_typed :: "attendee \<Rightarrow> bool" where
  "well_typed (ADict a) = (dict_get a ''email'' \<noteq> PyOther True)"
| "well_typed (AStr a) = True"
| "well_typed (AOther a) = True"

section \<open>Properties of the string functions\<close>

lemma of_char_lower: "(of_char (lower_char c) :: nat) = (if is_upper c then of_char c + 32 else of_char c)"
  by (simp add: lower_char_def is_upper_def)

lemma lower_char_idem: "lower_char (lower_char c) = lower_char c"
  by (simp add: lower_char_def is_upper_def)

lemma lower_char_at: "lower_char c = CHR ''@'' \<longleftrightarrow> c = CHR ''@''"
  unfolding of_char_eq_iff[where ?'a = nat, symmetric] of_char_lower by (simp add: is_upper_def)

lemma is_space_lower: "is_space (lower_char c) = is_space c"
  unfolding is_space_def of_char_lower by (simp add: is_upper_def)

lemma lower_idem: "lower (lower s) = lower s"
  by (simp add: lower_def lower_char_idem)

lemma split_nonempty: "split c s \<noteq> []"
  by (induction s) (auto split: list.splits)

lemma join_split: "join [c] (split c s) = s"
proof (induction s)
  case Nil then show ?case by simp
next
  case (Cons x xs)
  obtain p ps where ps: "split c xs = p # ps"
    using split_nonempty[of c xs] by (cases "split c xs") auto
  show ?case using Cons ps by (cases ps) auto
qed

lemma split_parts_no_sep: "p \<in> set (split c s) \<Longrightarrow> c \<notin> set p"
  by (induction s arbitrary: p) (auto split: if_splits list.splits)

lemma split_no_sep: "c \<notin> set s \<Longrightarrow> split c s = [s]"
  by (induction s) auto

lemma split_append_sep: "c \<notin> set p \<Longrightarrow> split c (p @ c # s) = p # split c s"
  by (induction p) auto

lemma split_join: "ps \<noteq> [] \<Longrightarrow> \<forall>p\<in>set ps. c \<notin> set p \<Longrightarrow> split c (join [c] ps) = ps"
proof (induction "[c]" ps rule: join.induct)
  case 1 then show ?case by simp
next
  case (2 p) then show ?case by (simp add: split_no_sep)
next
  case (3 p q ps)
  then show ?case by (simp add: split_append_sep)
qed

lemma length_join_drop: "length (join sep (drop k ps)) \<le> length (join sep ps)"
proof (induction sep ps arbitrary: k rule: join.induct)
  case (1 sep) then show ?case by simp
next
  case (2 sep p) then show ?case by (cases k) auto
next
  case (3 sep p q ps)
  show ?case
  proof (cases k)
    case 0 then show ?thesis by simp
  next
    case (Suc k')
    have "length (join sep (drop k' (q # ps))) \<le> length (join sep (q # ps))" by (rule 3)
    then show ?thesis using Suc by simp
  qed
qed

lemma set_join_drop: "set (join sep (drop k ps)) \<subseteq> set (join sep ps)"
proof (induction sep ps arbitrary: k rule: join.induct)
  case (1 sep) then show ?case by simp
next
  case (2 sep p) then show ?case by (cases k) auto
next
  case (3 sep p q ps)
  show ?case
  proof (cases k)
    case 0 then show ?thesis by simp
  next
    case (Suc k')
    have "set (join sep (drop k' (q # ps))) \<subseteq> set (join sep (q # ps))" by (rule 3)
    then show ?thesis using Suc by auto
  qed
qed

lemma length_strip_le: "length (strip s) \<le> length s"
proof -
  have "length (strip s) \<le> length (dropWhile is_space s)"
    unfolding strip_def using length_dropWhile_le[of is_space "rev (dropWhile is_space s)"] by simp
  also have "\<dots> \<le> length s" by (rule length_dropWhile_le)
  finally show ?thesis .
qed

lemma strip_neq_length: "strip s \<noteq> s \<Longrightarrow> length (strip s) < length s"
proof -
  assume ne: "strip s \<noteq> s"
  show ?thesis
  proof (rule ccontr)
    assume "\<not> length (strip s) < length s"
    then have eq: "length (strip s) = length s" using length_strip_le[of s] by simp
    have l1: "length (strip s) \<le> length (dropWhile is_space s)"
      unfolding strip_def using length_dropWhile_le[of is_space "rev (dropWhile is_space s)"] by simp
    have l2: "length (dropWhile is_space s) \<le> length s" by (rule length_dropWhile_le)
    from eq l1 l2 have e1: "length (dropWhile is_space s) = length s" by simp
    have d1: "dropWhile is_space s = s"
      using e1 by (metis append_eq_conv_conj length_append takeWhile_dropWhile_id add_cancel_right_left length_0_conv self_append_conv2)
    have e2: "length (dropWhile is_space (rev s)) = length (rev s)"
      using eq d1 by (simp add: strip_def)
    have d2: "dropWhile is_space (rev s) = rev s"
      using e2 by (metis append_eq_conv_conj length_append takeWhile_dropWhile_id add_cancel_right_left length_0_conv self_append_conv2)
    show False using ne d1 d2 by (simp add: strip_def)
  qed
qed

section \<open>Properties of the domain normalisation\<close>

lemma strip_set: "set (strip s) \<subseteq> set s"
proof -
  have "set (strip s) = set (dropWhile is_space (rev (dropWhile is_space s)))"
    by (simp add: strip_def)
  also have "\<dots> \<subseteq> set (rev (dropWhile is_space s))" by (rule set_dropWhileD[THEN subsetI]) 
  also have "\<dots> \<subseteq> set s" using set_dropWhileD[of _ is_space s] by auto
  finally show ?thesis .
qed

lemma set_join_split_drop:
  "set (join [c] (drop k (split c s))) \<subseteq> set s"
  using set_join_drop[of "[c]" k "split c s"] by (simp add: join_split)

lemma startswith_length: "startswith p s \<Longrightarrow> length p \<le> length s"
proof -
  assume "startswith p s"
  then have "take (length p) s = p" by (simp add: startswith_def)
  then have "length (take (length p) s) = length p" by (rule arg_cong)
  then show ?thesis by simp
qed

lemma base_domain_unfold:
  assumes "d2 = (if startswith ''www.'' (remove_char (CHR ''@'') (strip (lower d)))
                 then drop 4 (remove_char (CHR ''@'') (strip (lower d)))
                 else remove_char (CHR ''@'') (strip (lower d)))"
  shows "base_domain d =
           (if length (split (CHR ''.'') d2) \<ge> 3
            then join ''.'' (drop (length (split (CHR ''.'') d2) - 2) (split (CHR ''.'') d2))
            else d2)"
  unfolding assms base_domain_def Let_def by (rule refl)

lemma base_domain_chars: "x \<in> set (base_domain d) \<Longrightarrow> lower_char x = x \<and> x \<noteq> CHR ''@''"
proof -
  assume x: "x \<in> set (base_domain d)"
  let ?d1 = "remove_char (CHR ''@'') (strip (lower d))"
  define d2 where "d2 = (if startswith ''www.'' ?d1 then drop 4 ?d1 else ?d1)"
  have a: "set (base_domain d) \<subseteq> set d2"
    unfolding base_domain_unfold[OF d2_def]
    using set_join_split_drop[of "CHR ''.''" _ d2] by simp
  have b: "set d2 \<subseteq> set ?d1" unfolding d2_def using set_drop_subset[of 4 ?d1] by simp
  have c: "set ?d1 \<subseteq> set (lower d) - {CHR ''@''}"
    using strip_set[of "lower d"] by (auto simp: remove_char_def)
  from x a b c have "x \<in> set (lower d)" "x \<noteq> CHR ''@''" by auto
  then show ?thesis by (auto simp: lower_def lower_char_idem)
qed

lemma base_domain_lower: "lower (base_domain d) = base_domain d"
  using base_domain_chars[of _ d] by (simp add: lower_def map_idI)

lemma base_domain_no_at: "remove_char (CHR ''@'') (base_domain d) = base_domain d"
  using base_domain_chars[of _ d] by (auto simp: remove_char_def filter_id_conv)

lemma length_split_last_two:
  assumes "length (split c s) \<ge> 3"
  shows "length (split c (join [c] (drop (length (split c s) - 2) (split c s)))) = 2"
proof -
  let ?ps = "drop (length (split c s) - 2) (split c s)"
  have ne: "?ps \<noteq> []" using assms by simp
  have "\<forall>p\<in>set ?ps. c \<notin> set p"
    using split_parts_no_sep[of _ c s] by (meson in_set_dropD)
  then have "split c (join [c] ?ps) = ?ps" using ne by (rule split_join[rotated])
  then show ?thesis using assms by simp
qed

lemma base_domain_labels: "length (split (CHR ''.'') (base_domain d)) \<le> 2"
proof -
  let ?d1 = "remove_char (CHR ''@'') (strip (lower d))"
  define d2 where "d2 = (if startswith ''www.'' ?d1 then drop 4 ?d1 else ?d1)"
  show ?thesis
  proof (cases "length (split (CHR ''.'') d2) \<ge> 3")
    case True
    then have "base_domain d = join ''.'' (drop (length (split (CHR ''.'') d2) - 2) (split (CHR ''.'') d2))"
      unfolding base_domain_unfold[OF d2_def] by simp
    then show ?thesis using length_split_last_two[OF True] by simp
  next
    case False
    then have "base_domain d = d2" unfolding base_domain_unfold[OF d2_def] by simp
    then show ?thesis using False by simp
  qed
qed

lemma length_base_domain_le:
  "length (base_domain d) \<le> length (strip (lower d))"
  and length_base_domain_www:
  "startswith ''www.'' (remove_char (CHR ''@'') (strip (lower d))) \<Longrightarrow>
     length (base_domain d) < length (strip (lower d))"
proof -
  let ?d1 = "remove_char (CHR ''@'') (strip (lower d))"
  define d2 where "d2 = (if startswith ''www.'' ?d1 then drop 4 ?d1 else ?d1)"
  have a: "length (base_domain d) \<le> length d2"
    unfolding base_domain_unfold[OF d2_def]
    using length_join_drop[of "''.''" _ "split (CHR ''.'') d2"]
    by (simp add: join_split)
  have b: "length ?d1 \<le> length (strip (lower d))" by (simp add: remove_char_def)
  have c: "length d2 \<le> length ?d1" by (simp add: d2_def)
  show "length (base_domain d) \<le> length (strip (lower d))" using a b c by linarith
  assume w: "startswith ''www.'' ?d1"
  then have "length ?d1 \<ge> 4" using startswith_length[of "''www.''" ?d1] by simp
  with w have "length d2 < length ?d1" by (simp add: d2_def)
  with a b show "length (base_domain d) < length (strip (lower d))" by linarith
qed

text \<open>
  C3 (amended).  Normalising twice is not always the same as normalising once: the
  prefix \<^verbatim>\<open>www.\<close> is removed before the labels are counted and white space is stripped
  before \<^verbatim>\<open>@\<close> is removed, so a result can begin with \<^verbatim>\<open>www.\<close> or with white space
  again.  \<open>base_domain (base_domain d) = base_domain d\<close> holds exactly when
  \<open>base_domain d\<close> has no white space at either end and does not begin with
  \<^verbatim>\<open>www.\<close>.
\<close>

theorem base_domain_idempotent_iff:
  "base_domain (base_domain d) = base_domain d \<longleftrightarrow>
     (strip (base_domain d) = base_domain d \<and> \<not> startswith ''www.'' (base_domain d))"
proof
  assume fp: "base_domain (base_domain d) = base_domain d"
  let ?r = "base_domain d"
  have s: "strip ?r = ?r"
  proof (rule ccontr)
    assume "strip ?r \<noteq> ?r"
    then have "length (strip ?r) < length ?r" by (rule strip_neq_length)
    moreover have "length (base_domain ?r) \<le> length (strip (lower ?r))" by (rule length_base_domain_le)
    ultimately show False using fp by (simp add: base_domain_lower)
  qed
  have w: "\<not> startswith ''www.'' ?r"
  proof
    assume "startswith ''www.'' ?r"
    then have "startswith ''www.'' (remove_char (CHR ''@'') (strip (lower ?r)))"
      by (simp add: base_domain_lower s base_domain_no_at)
    then have "length (base_domain ?r) < length (strip (lower ?r))" by (rule length_base_domain_www)
    then show False using fp by (simp add: base_domain_lower s)
  qed
  from s w show "strip ?r = ?r \<and> \<not> startswith ''www.'' ?r" by simp
next
  let ?r = "base_domain d"
  assume "strip ?r = ?r \<and> \<not> startswith ''www.'' ?r"
  then have s: "strip ?r = ?r" and w: "\<not> startswith ''www.'' ?r" by simp_all
  have "remove_char (CHR ''@'') (strip (lower ?r)) = ?r"
    by (simp add: base_domain_lower s base_domain_no_at)
  then show "base_domain ?r = ?r"
    using w base_domain_labels[of d]
    by (simp add: base_domain_unfold[OF refl, of ?r])
qed

theorem base_domain_idempotent_iff_witness:
  "base_domain (base_domain ''Mail.Corp.ACME.com'') = base_domain ''Mail.Corp.ACME.com''"
proof -
  have "strip (base_domain ''Mail.Corp.ACME.com'') = base_domain ''Mail.Corp.ACME.com'' \<and>
        \<not> startswith ''www.'' (base_domain ''Mail.Corp.ACME.com'')"
    by code_simp
  then show ?thesis using base_domain_idempotent_iff [of "''Mail.Corp.ACME.com''"] by blast
qed

theorem base_domain_not_idempotent:
  "base_domain (base_domain ''www.www.com'') \<noteq> base_domain ''www.www.com''"
  by code_simp

section \<open>The configuration never fails; stage 4\<close>

lemma in_dropWhile: "x \<in> set s \<Longrightarrow> \<not> P x \<Longrightarrow> x \<in> set (dropWhile P s)"
  by (induction s) auto

lemma in_strip: "x \<in> set s \<Longrightarrow> \<not> is_space x \<Longrightarrow> x \<in> set (strip s)"
  by (simp add: strip_def in_dropWhile)

lemma colon_not_space: "\<not> is_space (CHR '':'')"
  by (simp add: is_space_def)

lemma name_map_loop_total:
  "\<forall>p\<in>set pairs. CHR '':'' \<in> set p \<Longrightarrow> \<exists>m'. name_map_loop pairs m = Inr m'"
  by (induction pairs arbitrary: m) (auto simp: split_max1_def)

lemma name_map_pairs_colon: "p \<in> set (name_map_pairs raw) \<Longrightarrow> CHR '':'' \<in> set p"
  by (auto simp: name_map_pairs_def in_strip colon_not_space)

lemma NAME_MAP_total: "\<exists>m. NAME_MAP env = Inr m"
  unfolding NAME_MAP_def using name_map_pairs_colon by (intro name_map_loop_total) blast

lemma getitem_split_max1:
  "c \<in> set s \<Longrightarrow>
     getitem (split_max1 c s) (Suc 0) = Inr (drop (Suc 0) (dropWhile (\<lambda>x. x \<noteq> c) s))"
  by (simp add: getitem_def split_max1_def)

lemma unfiltered_fallback_dead:
  "external_of env domains = [] \<Longrightarrow> unfiltered_fallback env domains = None"
  by (simp add: external_of_def unfiltered_fallback_def find_None_iff filter_empty_conv)

text \<open>
  C8.  Stage 4 is dead code.  It is reached only when no priority domain matched and
  \<open>external\<close> is empty; \<open>external\<close> is the list of the domains that are not
  empty, not internal and not ignored, and the loop of stage 4 looks in the same list
  for a domain with the same three properties, so it finds none.  The resolver
  without stage 4 returns the same result as the resolver, for every environment,
  attendee list and event text.
\<close>

theorem stage4_is_dead_code:
  "(\<forall>domains. external_of env domains = [] \<longrightarrow> unfiltered_fallback env domains = None) \<and>
   attendees_to_company_without_stage4 env attendees event_summary event_description =
     attendees_to_company env attendees event_summary event_description"
proof
  show "\<forall>domains. external_of env domains = [] \<longrightarrow> unfiltered_fallback env domains = None"
    by (simp add: unfiltered_fallback_dead)
  show "attendees_to_company_without_stage4 env attendees event_summary event_description =
     attendees_to_company env attendees event_summary event_description"
    unfolding attendees_to_company_without_stage4_def attendees_to_company_def
    by (simp add: unfiltered_fallback_dead Let_def split: sum.splits option.splits)
qed

theorem stage4_is_dead_code_witness:
  "external_of Map.empty [''gmail.com'', ''zoom.us''] = [] \<and>
   unfiltered_fallback Map.empty [''gmail.com'', ''zoom.us''] = None \<and>
   attendees_to_company_without_stage4 Map.empty (Some [AStr ''me@gmail.com'']) (Some ''Call with Acme'') None =
     attendees_to_company Map.empty (Some [AStr ''me@gmail.com'']) (Some ''Call with Acme'') None"
proof -
  have h: "external_of Map.empty [''gmail.com'', ''zoom.us''] = []"
    by code_simp
  have a: "\<forall>domains. external_of Map.empty domains = [] \<longrightarrow>
             unfiltered_fallback Map.empty domains = None"
    and b: "attendees_to_company_without_stage4 Map.empty (Some [AStr ''me@gmail.com''])
              (Some ''Call with Acme'') None =
            attendees_to_company Map.empty (Some [AStr ''me@gmail.com'']) (Some ''Call with Acme'') None"
    using stage4_is_dead_code [of Map.empty "Some [AStr ''me@gmail.com'']" "Some ''Call with Acme''" None]
    by blast+
  from a h have "unfiltered_fallback Map.empty [''gmail.com'', ''zoom.us''] = None" by blast
  with h b show ?thesis by blast
qed

lemma priority_stage_find:
  "priority_stage ps external = map_option base_domain (find (\<lambda>p. base_domain p \<in> set external) ps)"
  by (induction ps) (auto simp: Let_def)

section \<open>The majority vote\<close>

lemma set_firsts: "set (firsts xs) = set xs"
  by (induction xs) auto

lemma distinct_firsts: "distinct (firsts xs)"
  by (induction xs) auto

lemma firsts_snoc: "firsts (xs @ [x]) = (if x \<in> set xs then firsts xs else firsts xs @ [x])"
  by (induction xs) auto

lemma takeWhile_filter_swap:
  "y \<noteq> w \<Longrightarrow> takeWhile (\<lambda>x. x \<noteq> w) (filter (\<lambda>x. x \<noteq> y) zs) = filter (\<lambda>x. x \<noteq> y) (takeWhile (\<lambda>x. x \<noteq> w) zs)"
  by (induction zs) auto

lemma takeWhile_firsts:
  "takeWhile (\<lambda>x. x \<noteq> w) (firsts xs) = firsts (takeWhile (\<lambda>x. x \<noteq> w) xs)"
  by (induction xs) (auto simp: takeWhile_filter_swap)

lemma counter_add_map:
  "distinct ks \<Longrightarrow>
   counter_add (map (\<lambda>k. (k, f k)) ks) x =
     (if x \<in> set ks then map (\<lambda>k. (k, if k = x then f k + 1 else f k)) ks
      else map (\<lambda>k. (k, f k)) ks @ [(x, 1)])"
  by (induction ks) auto

lemma Counter_snoc: "Counter (xs @ [x]) = counter_add (Counter xs) x"
  by (simp add: Counter_def)

lemma Counter_closed: "Counter xs = map (\<lambda>k. (k, count_list xs k)) (firsts xs)"
proof (induction xs rule: rev_induct)
  case Nil
  then show ?case by (simp add: Counter_def)
next
  case (snoc x xs)
  have nx: "x \<notin> set xs \<Longrightarrow> count_list xs x = 0" by (simp add: count_list_0_iff)
  show ?case
    unfolding Counter_snoc snoc.IH
    by (auto simp add: counter_add_map[OF distinct_firsts] firsts_snoc set_firsts nx)
qed

lemma max_by_count_first_max:
  "max_by_count best xs = res \<Longrightarrow>
     (res = best \<and> (\<forall>e\<in>set xs. snd e \<le> snd best)) \<or>
     (\<exists>pre post. xs = pre @ res # post \<and> snd best < snd res \<and>
        (\<forall>e\<in>set pre. snd e < snd res) \<and> (\<forall>e\<in>set post. snd e \<le> snd res))"
proof (induction xs arbitrary: best)
  case Nil
  then show ?case by simp
next
  case (Cons x xs)
  show ?case
  proof (cases "snd best < snd x")
    case True
    then have "max_by_count x xs = res" using Cons.prems by simp
    from Cons.IH[OF this] show ?thesis
    proof
      assume a: "res = x \<and> (\<forall>e\<in>set xs. snd e \<le> snd x)"
      then have "x # xs = [] @ res # xs" by simp
      with a True show ?thesis by (intro disjI2 exI[of _ "[]"] exI[of _ xs]) simp
    next
      assume "\<exists>pre post. xs = pre @ res # post \<and> snd x < snd res \<and>
        (\<forall>e\<in>set pre. snd e < snd res) \<and> (\<forall>e\<in>set post. snd e \<le> snd res)"
      then obtain pre post where p: "xs = pre @ res # post" "snd x < snd res"
        "\<forall>e\<in>set pre. snd e < snd res" "\<forall>e\<in>set post. snd e \<le> snd res" by blast
      then have "x # xs = (x # pre) @ res # post" by simp
      with p True show ?thesis
        by (intro disjI2 exI[of _ "x # pre"] exI[of _ post]) auto
    qed
  next
    case False
    then have "max_by_count best xs = res" using Cons.prems by simp
    from Cons.IH[OF this] show ?thesis
    proof
      assume "res = best \<and> (\<forall>e\<in>set xs. snd e \<le> snd best)"
      with False show ?thesis by auto
    next
      assume "\<exists>pre post. xs = pre @ res # post \<and> snd best < snd res \<and>
        (\<forall>e\<in>set pre. snd e < snd res) \<and> (\<forall>e\<in>set post. snd e \<le> snd res)"
      then obtain pre post where p: "xs = pre @ res # post" "snd best < snd res"
        "\<forall>e\<in>set pre. snd e < snd res" "\<forall>e\<in>set post. snd e \<le> snd res" by blast
      then have "x # xs = (x # pre) @ res # post" by simp
      with p False show ?thesis
        by (intro disjI2 exI[of _ "x # pre"] exI[of _ post]) auto
    qed
  qed
qed

lemma most_common1_first_max:
  assumes "items \<noteq> []"
  shows "\<exists>pre res post. most_common1 items = [res] \<and> items = pre @ res # post \<and>
           (\<forall>e\<in>set pre. snd e < snd res) \<and> (\<forall>e\<in>set post. snd e \<le> snd res)"
proof -
  obtain x xs where items: "items = x # xs" using assms by (cases items) auto
  define res where "res = max_by_count x xs"
  have mc: "most_common1 items = [res]" by (simp add: most_common1_def items res_def)
  from max_by_count_first_max[OF res_def[symmetric]] show ?thesis
  proof
    assume "res = x \<and> (\<forall>e\<in>set xs. snd e \<le> snd x)"
    then show ?thesis using mc items by (intro exI[of _ "[]"] exI[of _ res] exI[of _ xs]) simp
  next
    assume "\<exists>pre post. xs = pre @ res # post \<and> snd x < snd res \<and>
        (\<forall>e\<in>set pre. snd e < snd res) \<and> (\<forall>e\<in>set post. snd e \<le> snd res)"
    then obtain pre post where p: "xs = pre @ res # post" "snd x < snd res"
        "\<forall>e\<in>set pre. snd e < snd res" "\<forall>e\<in>set post. snd e \<le> snd res" by blast
    then show ?thesis using mc items
      by (intro exI[of _ "x # pre"] exI[of _ res] exI[of _ post]) auto
  qed
qed

text \<open>The majority vote on a non-empty list: what \<^verbatim>\<open>Counter(xs).most_common(1)[0]\<close> is.\<close>

lemma majority:
  assumes "xs \<noteq> []"
  shows "\<exists>w n. getitem (most_common1 (Counter xs)) 0 = Inr (w, n) \<and> w \<in> set xs \<and>
           n = count_list xs w \<and>
           (\<forall>d\<in>set xs. count_list xs d \<le> count_list xs w) \<and>
           (\<forall>d\<in>set (takeWhile (\<lambda>x. x \<noteq> w) xs). count_list xs d < count_list xs w)"
proof -
  let ?items = "map (\<lambda>k. (k, count_list xs k)) (firsts xs)"
  have ne: "?items \<noteq> []" using assms set_firsts[of xs] by (cases "firsts xs") auto
  from most_common1_first_max[OF ne] obtain pre res post where
    mc: "most_common1 ?items = [res]" and dec: "?items = pre @ res # post" and
    lt: "\<forall>e\<in>set pre. snd e < snd res" and le: "\<forall>e\<in>set post. snd e \<le> snd res" by blast
  obtain w n where res: "res = (w, n)" by (cases res)
  have "res \<in> set ?items" using dec by simp
  then have w: "w \<in> set xs" and n: "n = count_list xs w" using res set_firsts[of xs] by auto
  have keys: "firsts xs = map fst pre @ w # map fst post"
  proof -
    have "map fst ?items = firsts xs" by (simp add: comp_def)
    then show ?thesis using dec res by (metis fst_conv list.simps(9) map_append)
  qed
  have all_items: "\<forall>e\<in>set (pre @ res # post). snd e = count_list xs (fst e)"
    unfolding dec[symmetric] by auto
  have "w \<notin> set (map fst pre)" using distinct_firsts[of xs] unfolding keys by simp
  then have "\<forall>k\<in>set (map fst pre). k \<noteq> w" by blast
  then have tw: "takeWhile (\<lambda>x. x \<noteq> w) (firsts xs) = map fst pre"
    unfolding keys by (subst takeWhile_append2) auto
  have before: "\<forall>d\<in>set (takeWhile (\<lambda>x. x \<noteq> w) xs). count_list xs d < count_list xs w"
  proof
    fix d assume "d \<in> set (takeWhile (\<lambda>x. x \<noteq> w) xs)"
    then have "d \<in> set (firsts (takeWhile (\<lambda>x. x \<noteq> w) xs))" by (simp add: set_firsts)
    then have "d \<in> set (map fst pre)" using tw by (simp add: takeWhile_firsts)
    then obtain e where e: "e \<in> set pre" "fst e = d" by auto
    then have "snd e < snd res" using lt by simp
    moreover have "snd e = count_list xs d" using all_items e by auto
    ultimately show "count_list xs d < count_list xs w" using res n by simp
  qed
  have maxi: "\<forall>d\<in>set xs. count_list xs d \<le> count_list xs w"
  proof
    fix d assume "d \<in> set xs"
    then have "d \<in> set (firsts xs)" by (simp add: set_firsts)
    then have "d \<in> set (map fst pre) \<or> d = w \<or> d \<in> set (map fst post)" unfolding keys by auto
    then obtain e where e: "e \<in> set (pre @ res # post)" "fst e = d" "snd e \<le> snd res"
      using lt le res by (auto intro: less_imp_le) (metis fst_conv order_refl in_set_conv_decomp)+
    then show "count_list xs d \<le> count_list xs w" using all_items res n by auto
  qed
  have "getitem (most_common1 (Counter xs)) 0 = Inr (w, n)"
    by (simp add: Counter_closed mc res getitem_def)
  then show ?thesis using w n maxi before by blast
qed

section \<open>Priority, majority and the returned domain\<close>

lemma first_index_less:
  "w \<in> set xs \<Longrightarrow> d \<noteq> w \<Longrightarrow> d \<notin> set (takeWhile (\<lambda>y. y \<noteq> w) xs) \<Longrightarrow>
     first_index xs w < first_index xs d"
  unfolding first_index_def by (induction xs) auto

lemma collect_domains_base:
  "collect_domains as acc = Inr ds \<Longrightarrow> x \<in> set ds \<Longrightarrow> x \<in> set acc \<or> (\<exists>y. x = base_domain y)"
proof (induction as arbitrary: acc)
  case Nil
  then show ?case by simp
next
  case (Cons a as)
  then show ?case
    by (fastforce split: sum.splits if_splits)
qed

lemma set_external_of: "set (external_of env domains) \<subseteq> set domains"
  by (auto simp: external_of_def)

lemma resolver_unfold:
  assumes "NAME_MAP env = Inr name_map"
      and "collect_domains (list_or_empty attendees) [] = Inr domains"
  shows "attendees_to_company env attendees event_summary event_description =
     (case priority_stage (PRIORITY env) (external_of env domains) of
           Some pb \<Rightarrow> Inr (winner name_map pb)
         | None \<Rightarrow>
             if external_of env domains \<noteq> []
             then (case getitem (most_common1 (Counter (external_of env domains))) 0 of
                     Inl err \<Rightarrow> Inl err
                   | Inr (dom', _) \<Rightarrow> Inr (winner name_map dom'))
             else text_stage event_summary event_description)"
  using assms unfolding attendees_to_company_def
  by (simp add: Let_def unfiltered_fallback_dead split: option.splits)

text \<open>
  C1.  When the base domain of some entry of \<^verbatim>\<open>PRIORITY\<close> occurs among the external
  domains, the resolver returns the base domain of the first such entry, in the
  order of the configured list, as \<open>companyDomain\<close>, however often the other
  external domains occur.  The witness is the example of the specification:
  externals \<^verbatim>\<open>acme.com, acme.com, beta.com\<close> with priority \<^verbatim>\<open>beta.com\<close>.
\<close>

theorem priority_domain_wins:
  assumes "collect_domains (list_or_empty attendees) [] = Inr domains"
      and "\<exists>q\<in>set (PRIORITY env). base_domain q \<in> set (external_of env domains)"
  shows "\<exists>p r. find (\<lambda>q. base_domain q \<in> set (external_of env domains)) (PRIORITY env) = Some p \<and>
           attendees_to_company env attendees event_summary event_description = Inr r \<and>
           companyDomain r = base_domain p"
proof -
  obtain name_map where nm: "NAME_MAP env = Inr name_map" using NAME_MAP_total by blast
  from assms(2) obtain p where
    p: "find (\<lambda>q. base_domain q \<in> set (external_of env domains)) (PRIORITY env) = Some p"
    by (cases "find (\<lambda>q. base_domain q \<in> set (external_of env domains)) (PRIORITY env)")
       (auto simp: find_None_iff)
  have "attendees_to_company env attendees event_summary event_description =
          Inr (winner name_map (base_domain p))"
    unfolding resolver_unfold[OF nm assms(1)] by (simp add: priority_stage_find p)
  then show ?thesis using p by (simp add: winner_def)
qed

theorem priority_domain_wins_witness:
  "\<exists>p r. find (\<lambda>q. base_domain q \<in> set (external_of [''DOMAIN_PRIORITY'' \<mapsto> ''beta.com'']
                   [''acme.com'', ''acme.com'', ''beta.com'']))
             (PRIORITY [''DOMAIN_PRIORITY'' \<mapsto> ''beta.com'']) = Some p \<and>
         attendees_to_company [''DOMAIN_PRIORITY'' \<mapsto> ''beta.com'']
           (Some [AStr ''ann@acme.com'', AStr ''bob@acme.com'', AStr ''cy@beta.com'']) None None = Inr r \<and>
         companyDomain r = base_domain p \<and> base_domain p = ''beta.com''"
proof -
  have h1: "collect_domains
              (list_or_empty (Some [AStr ''ann@acme.com'', AStr ''bob@acme.com'', AStr ''cy@beta.com''])) [] =
            Inr [''acme.com'', ''acme.com'', ''beta.com'']"
    by code_simp
  have h2: "\<exists>q\<in>set (PRIORITY [''DOMAIN_PRIORITY'' \<mapsto> ''beta.com'']).
              base_domain q \<in> set (external_of [''DOMAIN_PRIORITY'' \<mapsto> ''beta.com'']
                                      [''acme.com'', ''acme.com'', ''beta.com''])"
    by code_simp
  have h3: "\<And>p. find (\<lambda>q. base_domain q \<in> set (external_of [''DOMAIN_PRIORITY'' \<mapsto> ''beta.com'']
                   [''acme.com'', ''acme.com'', ''beta.com'']))
             (PRIORITY [''DOMAIN_PRIORITY'' \<mapsto> ''beta.com'']) = Some p \<Longrightarrow> base_domain p = ''beta.com''"
  proof -
    fix p
    have "find (\<lambda>q. base_domain q \<in> set (external_of [''DOMAIN_PRIORITY'' \<mapsto> ''beta.com'']
                   [''acme.com'', ''acme.com'', ''beta.com'']))
             (PRIORITY [''DOMAIN_PRIORITY'' \<mapsto> ''beta.com'']) = Some ''beta.com''"
      by code_simp
    moreover have "base_domain ''beta.com'' = ''beta.com''" by code_simp
    moreover assume "find (\<lambda>q. base_domain q \<in> set (external_of [''DOMAIN_PRIORITY'' \<mapsto> ''beta.com'']
                   [''acme.com'', ''acme.com'', ''beta.com'']))
             (PRIORITY [''DOMAIN_PRIORITY'' \<mapsto> ''beta.com'']) = Some p"
    ultimately show "base_domain p = ''beta.com''" by simp
  qed
  from priority_domain_wins [OF h1 h2, of None None] h3 show ?thesis by blast
qed

text \<open>
  C2.  When the external list is not empty and no priority domain matches, the
  resolver returns an external domain that occurs at least as often as every other
  one, and every other domain that occurs as often has its first occurrence later in
  the external list.
\<close>

theorem majority_vote_first_seen:
  assumes "collect_domains (list_or_empty attendees) [] = Inr domains"
      and "external = external_of env domains"
      and "external \<noteq> []"
      and "\<forall>p\<in>set (PRIORITY env). base_domain p \<notin> set external"
  shows "\<exists>r. attendees_to_company env attendees event_summary event_description = Inr r \<and>
           companyDomain r \<in> set external \<and>
           (\<forall>d\<in>set external. count_list external d \<le> count_list external (companyDomain r)) \<and>
           (\<forall>d\<in>set external. d \<noteq> companyDomain r \<and>
                count_list external d = count_list external (companyDomain r) \<longrightarrow>
                first_index external (companyDomain r) < first_index external d)"
proof -
  obtain name_map where nm: "NAME_MAP env = Inr name_map" using NAME_MAP_total by blast
  have np: "priority_stage (PRIORITY env) external = None"
    using assms(4) by (simp add: priority_stage_find find_None_iff)
  from majority[OF assms(3)] obtain w n where
    mc: "getitem (most_common1 (Counter external)) 0 = Inr (w, n)" and w: "w \<in> set external" and
    maxi: "\<forall>d\<in>set external. count_list external d \<le> count_list external w" and
    before: "\<forall>d\<in>set (takeWhile (\<lambda>x. x \<noteq> w) external). count_list external d < count_list external w"
    by blast
  have res: "attendees_to_company env attendees event_summary event_description =
          Inr (winner name_map w)"
    unfolding resolver_unfold[OF nm assms(1)] using np mc assms(2,3) by simp
  have tie: "\<forall>d\<in>set external. d \<noteq> w \<and> count_list external d = count_list external w \<longrightarrow>
                first_index external w < first_index external d"
  proof (intro ballI impI)
    fix d assume d: "d \<in> set external" "d \<noteq> w \<and> count_list external d = count_list external w"
    then have "d \<notin> set (takeWhile (\<lambda>x. x \<noteq> w) external)" using before by auto
    then show "first_index external w < first_index external d"
      using first_index_less[OF w] d by blast
  qed
  show ?thesis using res w maxi tie by (simp add: winner_def)
qed

theorem majority_vote_first_seen_witness:
  "attendees_to_company Map.empty
     (Some [AStr ''u@a.com'', AStr ''v@b.com'', AStr ''w@a.com'', AStr ''x@b.com'']) None None =
     Inr \<lparr>companyDomain = ''a.com'', companyName = ''A''\<rparr> \<and>
   (\<exists>r. attendees_to_company Map.empty
            (Some [AStr ''u@a.com'', AStr ''v@b.com'', AStr ''w@a.com'', AStr ''x@b.com'']) None None = Inr r \<and>
       companyDomain r \<in> set [''a.com'', ''b.com'', ''a.com'', ''b.com''] \<and>
       (\<forall>d\<in>set [''a.com'', ''b.com'', ''a.com'', ''b.com''].
           count_list [''a.com'', ''b.com'', ''a.com'', ''b.com''] d
             \<le> count_list [''a.com'', ''b.com'', ''a.com'', ''b.com''] (companyDomain r)) \<and>
       (\<forall>d\<in>set [''a.com'', ''b.com'', ''a.com'', ''b.com''].
           d \<noteq> companyDomain r \<and>
           count_list [''a.com'', ''b.com'', ''a.com'', ''b.com''] d =
             count_list [''a.com'', ''b.com'', ''a.com'', ''b.com''] (companyDomain r) \<longrightarrow>
           first_index [''a.com'', ''b.com'', ''a.com'', ''b.com''] (companyDomain r)
             < first_index [''a.com'', ''b.com'', ''a.com'', ''b.com''] d))"
proof -
  have h0: "attendees_to_company Map.empty
     (Some [AStr ''u@a.com'', AStr ''v@b.com'', AStr ''w@a.com'', AStr ''x@b.com'']) None None =
     Inr \<lparr>companyDomain = ''a.com'', companyName = ''A''\<rparr>"
    by code_simp
  have h1: "collect_domains
              (list_or_empty (Some [AStr ''u@a.com'', AStr ''v@b.com'', AStr ''w@a.com'', AStr ''x@b.com''])) [] =
            Inr [''a.com'', ''b.com'', ''a.com'', ''b.com'']"
    by code_simp
  have h2: "[''a.com'', ''b.com'', ''a.com'', ''b.com''] =
            external_of Map.empty [''a.com'', ''b.com'', ''a.com'', ''b.com'']"
    by code_simp
  have h3: "[''a.com'', ''b.com'', ''a.com'', ''b.com''] \<noteq> []"
    by simp
  have h4: "\<forall>p\<in>set (PRIORITY Map.empty).
              base_domain p \<notin> set [''a.com'', ''b.com'', ''a.com'', ''b.com'']"
    by code_simp
  show ?thesis using h0 majority_vote_first_seen [OF h1 h2 h3 h4, of None None] by (rule conjI)
qed

text \<open>
  C10.  A \<open>companyDomain\<close> that the resolver returns is empty, or it is a result of
  \<open>base_domain\<close>, hence lower-case and without \<^verbatim>\<open>@\<close>.
\<close>

theorem company_domain_normalised:
  assumes "attendees_to_company env attendees event_summary event_description = Inr r"
  shows "companyDomain r = [] \<or>
         (lower (companyDomain r) = companyDomain r \<and> CHR ''@'' \<notin> set (companyDomain r) \<and>
          (\<exists>x. companyDomain r = base_domain x))"
proof -
  obtain name_map where nm: "NAME_MAP env = Inr name_map" using NAME_MAP_total by blast
  obtain domains where cd: "collect_domains (list_or_empty attendees) [] = Inr domains"
    using assms nm unfolding attendees_to_company_def
    by (cases "collect_domains (list_or_empty attendees) []") auto
  have ext: "\<And>x. x \<in> set (external_of env domains) \<Longrightarrow> \<exists>y. x = base_domain y"
    using collect_domains_base[OF cd] set_external_of[of env domains] by auto
  have tdom: "\<And>r. text_stage event_summary event_description = Inr r \<Longrightarrow> companyDomain r = []"
    by (auto simp: text_stage_def unknown_def Let_def split: option.splits if_splits)
  have "companyDomain r = [] \<or> (\<exists>x. companyDomain r = base_domain x)"
  proof (cases "priority_stage (PRIORITY env) (external_of env domains)")
    case (Some pb)
    then have "r = winner name_map pb" using assms unfolding resolver_unfold[OF nm cd] by simp
    moreover have "\<exists>x. pb = base_domain x" using Some by (auto simp: priority_stage_find)
    ultimately show ?thesis by (auto simp: winner_def)
  next
    case None
    show ?thesis
    proof (cases "external_of env domains = []")
      case True
      then show ?thesis using assms None tdom unfolding resolver_unfold[OF nm cd] by simp
    next
      case False
      from majority[OF False] obtain w n where
        mc: "getitem (most_common1 (Counter (external_of env domains))) 0 = Inr (w, n)" and
        w: "w \<in> set (external_of env domains)" by blast
      then have "r = winner name_map w"
        using assms None False unfolding resolver_unfold[OF nm cd] by simp
      then show ?thesis using ext[OF w] by (auto simp: winner_def)
    qed
  qed
  then show ?thesis
    using base_domain_lower base_domain_chars by (metis)
qed

theorem company_domain_normalised_witness:
  "companyDomain \<lparr>companyDomain = ''acme.com'', companyName = ''Acme''\<rparr> = [] \<or>
   (lower (companyDomain \<lparr>companyDomain = ''acme.com'', companyName = ''Acme''\<rparr>) =
      companyDomain \<lparr>companyDomain = ''acme.com'', companyName = ''Acme''\<rparr> \<and>
    CHR ''@'' \<notin> set (companyDomain \<lparr>companyDomain = ''acme.com'', companyName = ''Acme''\<rparr>) \<and>
    (\<exists>x. companyDomain \<lparr>companyDomain = ''acme.com'', companyName = ''Acme''\<rparr> = base_domain x))"
proof -
  have h: "attendees_to_company Map.empty
             (Some [ADict [''email'' \<mapsto> PyStr ''Jane@Mail.ACME.com''],
                    ADict [''email'' \<mapsto> PyStr ''bob@kempfenterprise.com'']]) None None =
           Inr \<lparr>companyDomain = ''acme.com'', companyName = ''Acme''\<rparr>"
    by code_simp
  show ?thesis by (rule company_domain_normalised [OF h])
qed

section \<open>Properties of the regular expressions\<close>

lemma of_char_less_256: "(of_char c :: nat) < 256"
  by (metis mod_less_divisor of_char_mod_256 zero_less_numeral)

lemma of_char_upper: "(of_char (upper_char c) :: nat) = (if is_lower c then of_char c - 32 else of_char c)"
proof (cases "is_lower c")
  case True
  then have "(of_char c :: nat) - 32 < 256" unfolding is_lower_def by arith
  then have "((of_char c :: nat) - 32) mod 256 = of_char c - 32" by (rule mod_less)
  then show ?thesis using True by (simp add: upper_char_def)
next
  case False
  then show ?thesis by (simp add: upper_char_def)
qed

lemma lower_Nil: "lower [] = []"
  by (simp add: lower_def)

lemma lower_Cons: "lower (c # cs) = lower_char c # lower cs"
  by (simp add: lower_def)

lemma length_lower: "length (lower s) = length s"
  by (simp add: lower_def)

lemma take_lower: "take n (lower s) = lower (take n s)"
  by (simp add: lower_def take_map)

lemma upper_lower_char: "upper_char (lower_char c) = upper_char c"
  unfolding of_char_eq_iff[where ?'a = nat, symmetric] of_char_upper of_char_lower
  by (simp add: is_upper_def is_lower_def of_char_lower)

lemma item_matches_lower: "item_matches True i (lower_char c) = item_matches True i c"
  by (cases i) (simp_all add: lower_char_idem upper_lower_char is_space_lower)

lemma greedy_lower:
  assumes "\<And>c. p (lower_char c) = p c"
      and "\<And>s'. k' (lower s') = map_option F (k s')"
  shows "greedy p n (lower s) k' = map_option F (greedy p n s k)"
  using assms(2)
proof (induction s arbitrary: n)
  case Nil
  then show ?case using Nil[of "[]"] by (simp add: lower_Nil)
next
  case (Cons c cs)
  have ih: "greedy p (n - 1) (lower cs) k' = map_option F (greedy p (n - 1) cs k)"
    by (rule Cons.IH) (rule Cons.prems)
  have kk: "k' (lower_char c # lower cs) = map_option F (k (c # cs))"
    using Cons.prems[of "c # cs"] by (simp add: lower_Cons)
  show ?case using ih kk
    by (cases "greedy p (n - 1) cs k") (simp_all add: assms(1) lower_Cons)
qed

lemma matches_lower:
  assumes "\<And>s' g'. k' (lower s') (map_option lower g') = map_option F (k s' g')"
  shows "matches True r (lower s) (map_option lower g) k' = map_option F (matches True r s g k)"
  using assms
proof (induction r arbitrary: s g k k')
  case Eps
  then show ?case by simp
next
  case (One i)
  show ?case
  proof (cases s)
    case Nil
    then show ?thesis by (simp add: lower_Nil)
  next
    case (Cons c cs)
    have "k' (lower cs) (map_option lower g) = map_option F (k cs g)" by (rule One)
    then show ?thesis using Cons by (simp add: lower_Cons item_matches_lower)
  qed
next
  case (Seq r1 r2)
  show ?case
    unfolding matches.simps
    by (rule Seq.IH(1)) (rule Seq.IH(2), rule Seq.prems)
next
  case (Alt r1 r2)
  have a: "matches True r1 (lower s) (map_option lower g) k' = map_option F (matches True r1 s g k)"
    by (rule Alt.IH(1)) (rule Alt.prems)
  have b: "matches True r2 (lower s) (map_option lower g) k' = map_option F (matches True r2 s g k)"
    by (rule Alt.IH(2)) (rule Alt.prems)
  show ?case using a b by (cases "matches True r1 s g k") simp_all
next
  case (AtLeast n i)
  show ?case
    unfolding matches.simps
    by (rule greedy_lower) (simp_all add: item_matches_lower AtLeast)
next
  case (Group r)
  have "\<And>s' g'. k' (lower s') (Some (take (length (lower s) - length (lower s')) (lower s))) =
                 map_option F (k s' (Some (take (length s - length s') s)))"
    using Group.prems[of _ "Some _"] by (simp add: length_lower take_lower)
  then show ?case
    unfolding matches.simps by (rule Group.IH)
qed

lemma search_lower:
  "search True r (lower s) = map_option (map_option lower) (search True r s)"
proof (induction s)
  case Nil
  have "matches True r (lower []) (map_option lower None) (\<lambda>s' g. Some g) =
        map_option (map_option lower) (matches True r [] None (\<lambda>s' g. Some g))"
    by (rule matches_lower) simp
  then show ?case by (simp add: lower_Nil)
next
  case (Cons c cs)
  have m: "matches True r (lower (c # cs)) (map_option lower None) (\<lambda>s' g. Some g) =
        map_option (map_option lower) (matches True r (c # cs) None (\<lambda>s' g. Some g))"
    by (rule matches_lower) simp
  show ?case
    using m Cons unfolding lower_Cons
    by (cases "matches True r (c # cs) None (\<lambda>s' g. Some g)") simp_all
qed

lemma greedy_not_unset:
  assumes "\<And>s'. k s' \<noteq> Some None"
  shows "greedy p n s k \<noteq> Some None"
proof (induction s arbitrary: n)
  case Nil
  show ?case using assms[of "[]"] by simp
next
  case (Cons c cs)
  show ?case
  proof (cases "greedy p (n - 1) cs k")
    case None
    then show ?thesis using assms[of "c # cs"] by simp
  next
    case (Some x)
    have "x \<noteq> None" using Cons.IH[of "n - 1"] Some by auto
    then show ?thesis using Some assms[of "c # cs"] by auto
  qed
qed

lemma matches_not_unset:
  "(\<And>s' g'. k s' g' \<noteq> Some None) \<Longrightarrow> matches ic r s g k \<noteq> Some None"
proof (induction r arbitrary: s g k)
  case Eps
  then show ?case by simp
next
  case (One i)
  then show ?case by (cases s) simp_all
next
  case (Seq r1 r2)
  have k2: "\<And>s' g'. matches ic r2 s' g' k \<noteq> Some None"
    by (rule Seq.IH(2)) (rule Seq.prems)
  have "matches ic r1 s g (\<lambda>s' g'. matches ic r2 s' g' k) \<noteq> Some None"
    by (rule Seq.IH(1)) (rule k2)
  then show ?case by simp
next
  case (Alt r1 r2)
  have a: "matches ic r1 s g k \<noteq> Some None" by (rule Alt.IH(1)) (rule Alt.prems)
  have b: "matches ic r2 s g k \<noteq> Some None" by (rule Alt.IH(2)) (rule Alt.prems)
  show ?case using a b by (cases "matches ic r1 s g k") auto
next
  case (AtLeast n i)
  have "greedy (item_matches ic i) n s (\<lambda>s'. k s' g) \<noteq> Some None"
    by (rule greedy_not_unset) (rule AtLeast)
  then show ?case by simp
next
  case (Group r)
  have "matches ic r s g (\<lambda>s' g'. k s' (Some (take (length s - length s') s))) \<noteq> Some None"
    by (rule Group.IH) (rule Group.prems)
  then show ?case by simp
qed

lemma matches_group_kept:
  "(\<And>s' g'. g' \<noteq> None \<Longrightarrow> k s' g' \<noteq> Some None) \<Longrightarrow> g \<noteq> None \<Longrightarrow>
     matches ic r s g k \<noteq> Some None"
proof (induction r arbitrary: s g k)
  case Eps
  then show ?case by simp
next
  case (One i)
  then show ?case by (cases s) simp_all
next
  case (Seq r1 r2)
  have k2: "\<And>s' g'. g' \<noteq> None \<Longrightarrow> matches ic r2 s' g' k \<noteq> Some None"
    by (rule Seq.IH(2)) (use Seq.prems(1) in blast)+
  have "matches ic r1 s g (\<lambda>s' g'. matches ic r2 s' g' k) \<noteq> Some None"
    by (rule Seq.IH(1)) (use k2 Seq.prems(2) in blast)+
  then show ?case by simp
next
  case (Alt r1 r2)
  have a: "matches ic r1 s g k \<noteq> Some None" by (rule Alt.IH(1)) (use Alt.prems in blast)+
  have b: "matches ic r2 s g k \<noteq> Some None" by (rule Alt.IH(2)) (use Alt.prems in blast)+
  show ?case using a b by (cases "matches ic r1 s g k") auto
next
  case (AtLeast n i)
  have "greedy (item_matches ic i) n s (\<lambda>s'. k s' g) \<noteq> Some None"
    using AtLeast.prems by (intro greedy_not_unset) blast
  then show ?case by simp
next
  case (Group r)
  have "matches ic r s g (\<lambda>s' g'. k s' (Some (take (length s - length s') s))) \<noteq> Some None"
    by (rule matches_not_unset) (use Group.prems(1) in blast)
  then show ?case by simp
qed

lemma matches_group_set:
  "sets_group r \<Longrightarrow> (\<And>s' g'. g' \<noteq> None \<Longrightarrow> k s' g' \<noteq> Some None) \<Longrightarrow>
     matches ic r s g k \<noteq> Some None"
proof (induction r arbitrary: s g k)
  case (Seq r1 r2)
  have "matches ic r1 s g (\<lambda>s' g'. matches ic r2 s' g' k) \<noteq> Some None"
  proof (cases "sets_group r1")
    case True
    have k2: "\<And>s' g'. g' \<noteq> None \<Longrightarrow> matches ic r2 s' g' k \<noteq> Some None"
      by (rule matches_group_kept) (use Seq.prems(2) in blast)+
    show ?thesis by (rule Seq.IH(1)) (use True k2 in blast)+
  next
    case False
    then have "sets_group r2" using Seq.prems(1) by simp
    then have k2: "\<And>s' g'. matches ic r2 s' g' k \<noteq> Some None"
      by (rule Seq.IH(2)) (use Seq.prems(2) in blast)
    show ?thesis by (rule matches_not_unset) (rule k2)
  qed
  then show ?case by simp
next
  case (Alt r1 r2)
  have a: "matches ic r1 s g k \<noteq> Some None"
    by (rule Alt.IH(1)) (use Alt.prems in auto)
  have b: "matches ic r2 s g k \<noteq> Some None"
    by (rule Alt.IH(2)) (use Alt.prems in auto)
  show ?case using a b by (cases "matches ic r1 s g k") auto
next
  case (Group r)
  have "matches ic r s g (\<lambda>s' g'. k s' (Some (take (length s - length s') s))) \<noteq> Some None"
    by (rule matches_not_unset) (use Group.prems(2) in blast)
  then show ?case by simp
qed simp_all

lemma search_group_set: "sets_group r \<Longrightarrow> search ic r s \<noteq> Some None"
proof (induction s)
  case Nil
  then show ?case using matches_group_set[of r "\<lambda>s' g. Some g" ic "[]" None] by simp
next
  case (Cons c cs)
  then show ?case
    using matches_group_set[of r "\<lambda>s' g. Some g" ic "c # cs" None]
    by (auto split: option.splits)
qed

lemma first_match_group_set: "first_match t \<noteq> Some None"
proof -
  have "sets_group pattern_with_for" "sets_group pattern_poc" "sets_group pattern_paren"
    by (simp_all add: pattern_with_for_def pattern_poc_def pattern_paren_def phrase_def)
  then show ?thesis
    using search_group_set[of pattern_with_for True t] search_group_set[of pattern_poc True t]
      search_group_set[of pattern_paren False t]
    by (auto simp: first_match_def split: option.splits)
qed

lemma text_stage_total: "\<exists>r. text_stage event_summary event_description = Inr r"
  using first_match_group_set
  by (auto simp: text_stage_def Let_def split: option.splits)

lemma external_nonempty_entries: "x \<in> set (external_of env domains) \<Longrightarrow> x \<noteq> []"
  by (auto simp: external_of_def)

lemma resolver_result:
  assumes "NAME_MAP env = Inr name_map"
      and "attendees_to_company env attendees event_summary event_description = Inr r"
  shows "(companyDomain r = [] \<and> text_stage event_summary event_description = Inr r) \<or>
         (companyDomain r \<noteq> [] \<and> (\<exists>x. companyDomain r = base_domain x) \<and>
          r = winner name_map (companyDomain r))"
proof -
  obtain domains where cd: "collect_domains (list_or_empty attendees) [] = Inr domains"
    using assms unfolding attendees_to_company_def
    by (cases "collect_domains (list_or_empty attendees) []") auto
  have ext: "\<And>x. x \<in> set (external_of env domains) \<Longrightarrow> x \<noteq> [] \<and> (\<exists>y. x = base_domain y)"
    using collect_domains_base[OF cd] set_external_of[of env domains] external_nonempty_entries
    by fastforce
  have tdom: "\<And>r. text_stage event_summary event_description = Inr r \<Longrightarrow> companyDomain r = []"
    by (auto simp: text_stage_def unknown_def Let_def split: option.splits if_splits)
  show ?thesis
  proof (cases "priority_stage (PRIORITY env) (external_of env domains)")
    case (Some pb)
    then have "r = winner name_map pb" using assms(2) unfolding resolver_unfold[OF assms(1) cd] by simp
    moreover have "pb \<in> set (external_of env domains)"
      using Some by (auto simp: priority_stage_find find_Some_iff)
    ultimately show ?thesis using ext by (auto simp: winner_def)
  next
    case None
    show ?thesis
    proof (cases "external_of env domains = []")
      case True
      then show ?thesis using assms(2) None tdom unfolding resolver_unfold[OF assms(1) cd] by simp
    next
      case False
      from majority[OF False] obtain w n where
        mc: "getitem (most_common1 (Counter (external_of env domains))) 0 = Inr (w, n)" and
        w: "w \<in> set (external_of env domains)" by blast
      then have "r = winner name_map w"
        using assms(2) None False unfolding resolver_unfold[OF assms(1) cd] by simp
      then show ?thesis using ext[OF w] by (auto simp: winner_def)
    qed
  qed
qed

lemma hd_split: "hd (split c s) = takeWhile (\<lambda>x. x \<noteq> c) s"
  by (induction s) (auto split: list.splits simp: split_nonempty)

lemma pretty_from_domain_eq:
  assumes "core = takeWhile (\<lambda>c. c \<noteq> CHR ''.'') (base_domain d)"
  shows "pretty_from_domain d = (if core = [] then ''Unknown'' else upper_char (hd core) # tl core)"
    and "lower core = core"
proof -
  have "set core \<subseteq> set (base_domain d)" unfolding assms by (auto dest: set_takeWhileD)
  then show l: "lower core = core"
    using base_domain_chars[of _ d] unfolding lower_def by (intro map_idI) auto
  have "lower (tl core) = tl core"
    using l by (cases core) (simp_all add: lower_def)
  then show "pretty_from_domain d = (if core = [] then ''Unknown'' else upper_char (hd core) # tl core)"
    unfolding pretty_from_domain_def hd_split assms[symmetric] Let_def capitalize_def
    by (cases core) simp_all
qed

text \<open>
  C6.  The display name of a winning domain \<open>d\<close> is the entry of the name map for
  the lower-cased \<open>d\<close> when there is one.  Otherwise it is the part \<open>core\<close> of
  \<open>base_domain d\<close> before its first dot, with only its first character
  upper-cased and every other character as it is in \<open>core\<close>, or \<^verbatim>\<open>Unknown\<close> when
  \<open>core\<close> is empty.  \<^verbatim>\<open>capitalize\<close> lower-cases the characters after the first,
  which changes nothing: a winning domain is a value of \<open>base_domain\<close>, so
  \<open>core\<close> is lower-case already.
\<close>

theorem display_name_of_winner:
  assumes "NAME_MAP env = Inr name_map"
      and "attendees_to_company env attendees event_summary event_description = Inr r"
      and "companyDomain r \<noteq> []"
      and "core = takeWhile (\<lambda>c. c \<noteq> CHR ''.'') (base_domain (companyDomain r))"
  shows "companyName r =
           (case name_map (lower (companyDomain r)) of
              Some name \<Rightarrow> name
            | None \<Rightarrow> if core = [] then ''Unknown'' else upper_char (hd core) # tl core) \<and>
         lower core = core"
proof -
  from resolver_result[OF assms(1,2)] assms(3) obtain x where
    x: "companyDomain r = base_domain x" and r: "r = winner name_map (companyDomain r)" by blast
  have low: "lower (companyDomain r) = companyDomain r" unfolding x by (rule base_domain_lower)
  have "companyName r = display_name name_map (companyDomain r)"
    using r by (metis company.select_convs(2) winner_def)
  then show ?thesis
    using pretty_from_domain_eq[OF assms(4)] low
    by (simp add: display_name_def split: option.splits)
qed

theorem display_name_of_winner_witness:
  "companyName \<lparr>companyDomain = ''acme.com'', companyName = ''Acme''\<rparr> =
     (case Map.empty (lower (companyDomain \<lparr>companyDomain = ''acme.com'', companyName = ''Acme''\<rparr>)) of
        Some name \<Rightarrow> name
      | None \<Rightarrow> if ''acme'' = [] then ''Unknown'' else upper_char (hd ''acme'') # tl ''acme'') \<and>
   lower ''acme'' = ''acme''"
proof -
  have h1: "NAME_MAP Map.empty = Inr Map.empty"
    by (simp add: NAME_MAP_def name_map_pairs_def getenv_def)
  have h2: "attendees_to_company Map.empty (Some [AStr ''bob@aCME.com'']) None None =
            Inr \<lparr>companyDomain = ''acme.com'', companyName = ''Acme''\<rparr>"
    by code_simp
  have h3: "companyDomain \<lparr>companyDomain = ''acme.com'', companyName = ''Acme''\<rparr> \<noteq> []"
    by simp
  have h4: "''acme'' = takeWhile (\<lambda>c. c \<noteq> CHR ''.'')
              (base_domain (companyDomain \<lparr>companyDomain = ''acme.com'', companyName = ''Acme''\<rparr>))"
    by code_simp
  show ?thesis by (rule display_name_of_winner [OF h1 h2 h3 h4])
qed

section \<open>Totality\<close>

lemma as_str_or_empty: "v \<noteq> PyOther True \<Longrightarrow> \<exists>t. as_str (or_empty v) = Inr t"
  by (cases v) (auto simp: or_empty_def)

lemma attendee_email_well_typed: "well_typed a \<Longrightarrow> \<exists>t. attendee_email a = Inr t"
proof (cases a)
  case (ADict x)
  assume "well_typed a"
  then obtain t where "as_str (or_empty (dict_get x ''email'')) = Inr t"
    using ADict as_str_or_empty by auto
  then show ?thesis using ADict by simp
qed simp_all

lemma collect_domains_total:
  "\<forall>a\<in>set as. well_typed a \<Longrightarrow> \<exists>ds. collect_domains as acc = Inr ds"
proof (induction as arbitrary: acc)
  case Nil
  then show ?case by simp
next
  case (Cons a as)
  have "well_typed a" using Cons.prems by simp
  then obtain t where t: "attendee_email a = Inr t" using attendee_email_well_typed by blast
  have "\<And>acc'. \<exists>ds. collect_domains as acc' = Inr ds" using Cons by simp
  then show ?case using t by (simp add: getitem_split_max1)
qed

lemma collect_domains_no_address:
  "\<forall>a\<in>set as. \<exists>t. attendee_email a = Inr t \<and> CHR ''@'' \<notin> set t \<Longrightarrow>
     collect_domains as acc = Inr acc"
  by (induction as arbitrary: acc) auto

lemma resolver_total:
  assumes "collect_domains (list_or_empty attendees) [] = Inr domains"
  shows "\<exists>r. attendees_to_company env attendees event_summary event_description = Inr r"
proof -
  obtain name_map where nm: "NAME_MAP env = Inr name_map" using NAME_MAP_total by blast
  show ?thesis
  proof (cases "priority_stage (PRIORITY env) (external_of env domains)")
    case (Some pb)
    then show ?thesis unfolding resolver_unfold[OF nm assms] by simp
  next
    case None
    show ?thesis
    proof (cases "external_of env domains = []")
      case True
      then show ?thesis
        using None text_stage_total unfolding resolver_unfold[OF nm assms] by simp
    next
      case False
      from majority[OF False] obtain w n where
        "getitem (most_common1 (Counter (external_of env domains))) 0 = Inr (w, n)" by blast
      then show ?thesis using None False unfolding resolver_unfold[OF nm assms] by simp
    qed
  qed
qed

lemma resolver_no_domains:
  assumes "collect_domains (list_or_empty attendees) [] = Inr domains"
      and "external_of env domains = []"
  shows "attendees_to_company env attendees event_summary event_description =
           text_stage event_summary event_description"
proof -
  obtain name_map where nm: "NAME_MAP env = Inr name_map" using NAME_MAP_total by blast
  have "priority_stage (PRIORITY env) (external_of env domains) = None"
    using assms(2) by (simp add: priority_stage_find find_None_iff)
  then show ?thesis using assms(2) unfolding resolver_unfold[OF nm assms(1)] by simp
qed

lemma split_append:
  "split c (a @ c # b) = split c a @ split c b"
proof (induction a)
  case Nil
  then show ?case by simp
next
  case (Cons x a)
  obtain p ps where ps: "split c a = p # ps"
    using split_nonempty[of c a] by (cases "split c a") auto
  show ?case using Cons ps by simp
qed

lemma name_map_pairs_skip:
  assumes "CHR '':'' \<notin> set p" and "CHR '','' \<notin> set p"
  shows "name_map_pairs (a @ CHR '','' # p @ CHR '','' # b) = name_map_pairs (a @ CHR '','' # b)"
proof -
  have "split (CHR '','') (a @ CHR '','' # p @ CHR '','' # b) =
          split (CHR '','') a @ [p] @ split (CHR '','') b"
    using assms(2) by (simp add: split_append split_no_sep)
  moreover have "split (CHR '','') (a @ CHR '','' # b) = split (CHR '','') a @ split (CHR '','') b"
    by (rule split_append)
  ultimately show ?thesis using assms(1) by (simp add: name_map_pairs_def)
qed

lemma text_stage_no_text: "text_stage None None = Inr unknown"
  by code_simp

text \<open>
  C7 (amended).  The configuration is always read without an error, and an entry of
  \<^verbatim>\<open>DOMAIN_NAME_MAP\<close> without a colon changes nothing.  The resolver returns a result
  whenever every attendee is well typed; a dict whose \<^verbatim>\<open>email\<close> is a true value that
  is not a \<^verbatim>\<open>str\<close> raises \<^verbatim>\<open>AttributeError\<close>.  When no attendee has an \<^verbatim>\<open>@\<close> in
  its e-mail text (a dict without e-mail, a \<^verbatim>\<open>str\<close> or the \<^verbatim>\<open>str()\<close> of another value
  without \<^verbatim>\<open>@\<close>, an empty or missing list), the result is that of the text stage, and
  it is Unknown when summary and description are missing too.
\<close>

theorem resolver_total_on_well_typed:
  "(\<exists>m. NAME_MAP env = Inr m) \<and>
   ((\<forall>a\<in>set (list_or_empty attendees). well_typed a) \<longrightarrow>
      (\<exists>r. attendees_to_company env attendees event_summary event_description = Inr r)) \<and>
   ((\<forall>a\<in>set (list_or_empty attendees). \<exists>t. attendee_email a = Inr t \<and> CHR ''@'' \<notin> set t) \<longrightarrow>
      attendees_to_company env attendees event_summary event_description =
        text_stage event_summary event_description \<and>
      attendees_to_company env attendees None None = Inr unknown) \<and>
   (CHR '':'' \<notin> set p \<and> CHR '','' \<notin> set p \<longrightarrow>
      NAME_MAP (env(''DOMAIN_NAME_MAP'' \<mapsto> a @ '','' @ p @ '','' @ b)) =
      NAME_MAP (env(''DOMAIN_NAME_MAP'' \<mapsto> a @ '','' @ b)))"
proof (intro conjI impI)
  show "\<exists>m. NAME_MAP env = Inr m" by (rule NAME_MAP_total)
next
  assume "\<forall>a\<in>set (list_or_empty attendees). well_typed a"
  then obtain ds where "collect_domains (list_or_empty attendees) [] = Inr ds"
    using collect_domains_total by blast
  then show "\<exists>r. attendees_to_company env attendees event_summary event_description = Inr r"
    by (rule resolver_total)
next
  assume "\<forall>a\<in>set (list_or_empty attendees). \<exists>t. attendee_email a = Inr t \<and> CHR ''@'' \<notin> set t"
  then have cd: "collect_domains (list_or_empty attendees) [] = Inr []"
    by (rule collect_domains_no_address)
  have ex: "external_of env [] = []" by (simp add: external_of_def)
  show "attendees_to_company env attendees event_summary event_description =
        text_stage event_summary event_description"
    by (rule resolver_no_domains[OF cd ex])
  show "attendees_to_company env attendees None None = Inr unknown"
    using resolver_no_domains[OF cd ex, of None None] by (simp add: text_stage_no_text)
next
  assume "CHR '':'' \<notin> set p \<and> CHR '','' \<notin> set p"
  then show "NAME_MAP (env(''DOMAIN_NAME_MAP'' \<mapsto> a @ '','' @ p @ '','' @ b)) =
      NAME_MAP (env(''DOMAIN_NAME_MAP'' \<mapsto> a @ '','' @ b))"
    by (simp add: NAME_MAP_def getenv_def name_map_pairs_skip)
qed

theorem resolver_total_on_well_typed_witness:
  "(\<exists>m. NAME_MAP Map.empty = Inr m) \<and>
   (\<exists>r. attendees_to_company Map.empty
          (Some [ADict Map.empty, ADict [''email'' \<mapsto> PyNone], AStr ''no address'', AOther ''5''])
          None None = Inr r) \<and>
   attendees_to_company Map.empty
     (Some [ADict Map.empty, ADict [''email'' \<mapsto> PyNone], AStr ''no address'', AOther ''5''])
     None None = Inr unknown \<and>
   NAME_MAP [''DOMAIN_NAME_MAP'' \<mapsto> ''fb.com:Meta,bad entry,google.com:Google''] =
   NAME_MAP [''DOMAIN_NAME_MAP'' \<mapsto> ''fb.com:Meta,google.com:Google'']"
proof -
  let ?as = "Some [ADict Map.empty, ADict [''email'' \<mapsto> PyNone], AStr ''no address'', AOther ''5'']"
  have e1: "attendee_email (ADict Map.empty) = Inr []" by code_simp
  have e2: "attendee_email (ADict [''email'' \<mapsto> PyNone]) = Inr []" by code_simp
  have e3: "attendee_email (AStr ''no address'') = Inr ''no address''" by code_simp
  have e4: "attendee_email (AOther ''5'') = Inr ''5''" by code_simp
  have h1: "\<forall>a\<in>set (list_or_empty ?as). well_typed a"
    by (simp add: list_or_empty_def dict_get_def)
  have h2: "\<forall>a\<in>set (list_or_empty ?as). \<exists>t. attendee_email a = Inr t \<and> CHR ''@'' \<notin> set t"
    unfolding list_or_empty_def using e1 e2 e3 e4 by simp
  have h3: "CHR '':'' \<notin> set ''bad entry'' \<and> CHR '','' \<notin> set ''bad entry''"
    by simp
  note T = resolver_total_on_well_typed
      [of Map.empty ?as None None "''bad entry''" "''fb.com:Meta''" "''google.com:Google''"]
  from T have c1: "\<exists>m. NAME_MAP Map.empty = Inr m" by blast
  from T h1 have c2: "\<exists>r. attendees_to_company Map.empty ?as None None = Inr r" by blast
  from T h2 have c3: "attendees_to_company Map.empty ?as None None = Inr unknown" by blast
  from T h3 have "NAME_MAP [''DOMAIN_NAME_MAP'' \<mapsto> ''fb.com:Meta'' @ '','' @ ''bad entry'' @ '','' @ ''google.com:Google''] =
      NAME_MAP [''DOMAIN_NAME_MAP'' \<mapsto> ''fb.com:Meta'' @ '','' @ ''google.com:Google'']" by blast
  then have c4: "NAME_MAP [''DOMAIN_NAME_MAP'' \<mapsto> ''fb.com:Meta,bad entry,google.com:Google''] =
      NAME_MAP [''DOMAIN_NAME_MAP'' \<mapsto> ''fb.com:Meta,google.com:Google'']" by simp
  from c1 c2 c3 c4 show ?thesis by blast
qed

theorem non_string_email_raises:
  "attendees_to_company Map.empty (Some [ADict [''email'' \<mapsto> PyOther True]]) None None =
     Inl AttributeError"
  by code_simp

section \<open>The text stage\<close>

lemma text_stage_eq:
  "text_stage event_summary event_description =
     (case first_match (str_or_empty event_summary @ '' '' @ str_or_empty event_description) of
        Some (Some g) \<Rightarrow>
          if lower (strip g) \<in> stop_words then Inr unknown
          else Inr \<lparr>companyDomain = [], companyName = strip g\<rparr>
      | _ \<Rightarrow> Inr unknown)"
  using first_match_group_set[of "str_or_empty event_summary @ '' '' @ str_or_empty event_description"]
  by (simp add: text_stage_def Let_def split: option.splits)

text \<open>
  C4.  In stage 5 the first search that matches decides: when the text of its group,
  stripped and lower-cased, is one of the stop words, the resolver returns Unknown
  whatever the later patterns would match.  In particular the summary
  \<^verbatim>\<open>POC: Demo\<close> without domain evidence gives Unknown.  The witness is the summary
  \<^verbatim>\<open>for Demo (Acme)\<close>: the first pattern matches \<^verbatim>\<open>Demo\<close>, and the third pattern, which
  would match \<^verbatim>\<open>Acme\<close>, is not tried.
\<close>

theorem stop_word_rejects_first_match:
  assumes "collect_domains (list_or_empty attendees) [] = Inr domains"
      and "external_of env domains = []"
  shows "(\<forall>g t. t = str_or_empty event_summary @ '' '' @ str_or_empty event_description \<and>
            (search True pattern_with_for t = Some (Some g) \<or>
             search True pattern_with_for t = None \<and> search True pattern_poc t = Some (Some g) \<or>
             search True pattern_with_for t = None \<and> search True pattern_poc t = None \<and>
               search False pattern_paren t = Some (Some g)) \<and>
            lower (strip g) \<in> stop_words \<longrightarrow>
          attendees_to_company env attendees event_summary event_description = Inr unknown) \<and>
         attendees_to_company env attendees (Some ''POC: Demo'') None = Inr unknown"
proof (intro conjI allI impI)
  fix g t
  assume a: "t = str_or_empty event_summary @ '' '' @ str_or_empty event_description \<and>
            (search True pattern_with_for t = Some (Some g) \<or>
             search True pattern_with_for t = None \<and> search True pattern_poc t = Some (Some g) \<or>
             search True pattern_with_for t = None \<and> search True pattern_poc t = None \<and>
               search False pattern_paren t = Some (Some g)) \<and>
            lower (strip g) \<in> stop_words"
  then have "first_match t = Some (Some g)" by (auto simp: first_match_def)
  then have "text_stage event_summary event_description = Inr unknown"
    using a by (simp add: text_stage_eq)
  then show "attendees_to_company env attendees event_summary event_description = Inr unknown"
    using resolver_no_domains[OF assms] by simp
next
  have "text_stage (Some ''POC: Demo'') None = Inr unknown" by code_simp
  then show "attendees_to_company env attendees (Some ''POC: Demo'') None = Inr unknown"
    using resolver_no_domains[OF assms] by simp
qed

theorem stop_word_rejects_first_match_witness:
  "attendees_to_company Map.empty None (Some ''for Demo (Acme)'') None = Inr unknown \<and>
   attendees_to_company Map.empty None (Some ''POC: Demo'') None = Inr unknown \<and>
   search False pattern_paren ''for Demo (Acme) '' = Some (Some ''Acme'')"
proof -
  have h1: "collect_domains (list_or_empty None) [] = Inr []" by code_simp
  have h2: "external_of Map.empty [] = []" by code_simp
  have h3: "''for Demo (Acme) '' = str_or_empty (Some ''for Demo (Acme)'') @ '' '' @ str_or_empty None"
    by code_simp
  have h4: "search True pattern_with_for ''for Demo (Acme) '' = Some (Some ''Demo '')" by code_simp
  have h5: "lower (strip ''Demo '') \<in> stop_words" by code_simp
  have h6: "search False pattern_paren ''for Demo (Acme) '' = Some (Some ''Acme'')" by code_simp
  from stop_word_rejects_first_match [OF h1 h2, of "Some ''for Demo (Acme)''" None]
  have a: "\<forall>g t. t = str_or_empty (Some ''for Demo (Acme)'') @ '' '' @ str_or_empty None \<and>
            (search True pattern_with_for t = Some (Some g) \<or>
             search True pattern_with_for t = None \<and> search True pattern_poc t = Some (Some g) \<or>
             search True pattern_with_for t = None \<and> search True pattern_poc t = None \<and>
               search False pattern_paren t = Some (Some g)) \<and>
            lower (strip g) \<in> stop_words \<longrightarrow>
          attendees_to_company Map.empty None (Some ''for Demo (Acme)'') None = Inr unknown"
    and b: "attendees_to_company Map.empty None (Some ''POC: Demo'') None = Inr unknown"
    by blast+
  from a h3 h4 h5 have "attendees_to_company Map.empty None (Some ''for Demo (Acme)'') None = Inr unknown"
    by blast
  with b h6 show ?thesis by blast
qed

section \<open>The patterns of the text stage\<close>

lemma greedy_Some:
  "greedy p n s k = Some r \<Longrightarrow> \<exists>run rest. s = run @ rest \<and> k rest = Some r \<and> n \<le> length run"
proof (induction s arbitrary: n)
  case Nil
  then show ?case by (auto split: if_splits)
next
  case (Cons c cs)
  show ?case
  proof (cases "p c \<and> greedy p (n - 1) cs k \<noteq> None")
    case True
    then have "greedy p (n - 1) cs k = Some r" using Cons.prems by auto
    from Cons.IH[OF this] obtain run rest where
      "cs = run @ rest" "k rest = Some r" "n - 1 \<le> length run" by blast
    then have "c # cs = (c # run) @ rest \<and> k rest = Some r \<and> n \<le> length (c # run)" by auto
    then show ?thesis by blast
  next
    case False
    then have "n = 0 \<and> k (c # cs) = Some r"
      using Cons.prems by (auto split: if_splits option.splits)
    then have "c # cs = [] @ (c # cs) \<and> k (c # cs) = Some r \<and> n \<le> length ([] :: string)" by simp
    then show ?thesis by blast
  qed
qed

lemma set_upper_range: "item_matches False (Set [Range (CHR ''A'') (CHR ''Z'')]) c = is_upper c"
  by (simp add: is_upper_def)

lemma one_step:
  "matches ic (Seq (One i) r) s g k = Some x \<Longrightarrow>
     \<exists>c cs. s = c # cs \<and> item_matches ic i c \<and> matches ic r cs g k = Some x"
  by (cases s) (simp_all del: item_matches.simps split: if_splits)

lemma atleast_step:
  "matches ic (AtLeast n i) s g k = Some x \<Longrightarrow>
     \<exists>run rest. s = run @ rest \<and> k rest g = Some x \<and> n \<le> length run"
  unfolding matches.simps by (rule greedy_Some)

lemma phrase_capture:
  assumes "matches False phrase s g k = Some r"
  shows "\<exists>cap rest. s = cap @ rest \<and> k rest (Some cap) = Some r \<and> cap \<noteq> [] \<and> is_upper (hd cap)"
proof -
  let ?k = "\<lambda>s' g'. k s' (Some (take (length s - length s') s))"
  have m: "matches False (Seq (One (Set [Range (CHR ''A'') (CHR ''Z'')]))
             (AtLeast 2 (Set [Range (CHR ''A'') (CHR ''Z''), Range (CHR ''a'') (CHR ''z''),
                              Range (CHR ''0'') (CHR ''9''), Single (CHR ''&''),
                              Single (CHR ''.''), Single (CHR ''-''), Single (CHR '' '')])))
           s g ?k = Some r"
    using assms unfolding phrase_def matches.simps(6) .
  from one_step[OF m] show ?thesis
  proof (elim exE conjE)
    fix c cs
    assume s: "s = c # cs"
      and up: "item_matches False (Set [Range (CHR ''A'') (CHR ''Z'')]) c"
      and b: "matches False (AtLeast 2 (Set [Range (CHR ''A'') (CHR ''Z''), Range (CHR ''a'') (CHR ''z''),
                              Range (CHR ''0'') (CHR ''9''), Single (CHR ''&''),
                              Single (CHR ''.''), Single (CHR ''-''), Single (CHR '' '')]))
              cs g ?k = Some r"
    from atleast_step[OF b] show ?thesis
    proof (elim exE conjE)
      fix run rest
      assume rr: "cs = run @ rest" and kk: "k rest (Some (take (length s - length rest) s)) = Some r"
      have "take (length s - length rest) s = c # run" unfolding s rr by simp
      then have k': "k rest (Some (c # run)) = Some r" using kk by (simp only:)
      have u: "is_upper c" using up unfolding set_upper_range .
      have "s = (c # run) @ rest" unfolding s rr by simp
      moreover have "c # run \<noteq> []" by simp
      moreover have "is_upper (hd (c # run))" using u by simp
      ultimately show ?thesis using k' by (intro exI[of _ "c # run"] exI[of _ rest] conjI)
    qed
  qed
qed

lemma paren_match_capital:
  assumes "matches False pattern_paren s None (\<lambda>s' g. Some g) = Some (Some g)"
  shows "g \<noteq> [] \<and> is_upper (hd g)"
proof -
  let ?k = "\<lambda>s' g'. matches False (One (Lit (CHR '')''))) s' g' (\<lambda>s' g. Some g)"
  have m: "matches False (Seq (One (Lit (CHR ''(''))) (Seq phrase (One (Lit (CHR '')'')))))
             s None (\<lambda>s' g. Some g) = Some (Some g)"
    using assms unfolding pattern_paren_def .
  from one_step[OF m] show ?thesis
  proof (elim exE conjE)
    fix c cs
    assume "matches False (Seq phrase (One (Lit (CHR '')'')))) cs None (\<lambda>s' g. Some g) = Some (Some g)"
    then have "matches False phrase cs None ?k = Some (Some g)"
      by (simp only: matches.simps(3))
    from phrase_capture[OF this] show ?thesis
    proof (elim exE conjE)
      fix cap rest
      assume k: "?k rest (Some cap) = Some (Some g)" and cap: "cap \<noteq> []" "is_upper (hd cap)"
      from k have "g = cap" by (cases rest) (simp_all split: if_splits)
      then show ?thesis using cap by simp
    qed
  qed
qed

lemma search_paren_capital:
  "search False pattern_paren t = Some (Some g) \<Longrightarrow> g \<noteq> [] \<and> is_upper (hd g)"
proof (induction t)
  case Nil
  then show ?case using paren_match_capital[of "[]" g] by simp
next
  case (Cons c cs)
  show ?case
  proof (cases "matches False pattern_paren (c # cs) None (\<lambda>s' g. Some g)")
    case None
    then show ?thesis using Cons by simp
  next
    case (Some x)
    then have "matches False pattern_paren (c # cs) None (\<lambda>s' g. Some g) = Some (Some g)"
      using Cons.prems by simp
    then show ?thesis by (rule paren_match_capital)
  qed
qed

lemma search_ignorecase:
  assumes "lower t1 = lower t2"
  shows "map_option (map_option lower) (search True r t1) =
         map_option (map_option lower) (search True r t2)"
proof -
  have "map_option (map_option lower) (search True r t1) = search True r (lower t1)"
    by (simp only: search_lower)
  also have "\<dots> = search True r (lower t2)" by (simp only: assms)
  also have "\<dots> = map_option (map_option lower) (search True r t2)"
    by (simp only: search_lower)
  finally show ?thesis .
qed

text \<open>
  C5 (amended).  Without domain evidence the resolver decides by the first match in
  the summary and the description joined by one space.  The three searches are
  tried in order: \<^verbatim>\<open>with|for\<close>, then \<^verbatim>\<open>POC[:-]\<close>, then the parenthesised phrase.
  The first two ignore case: texts that differ only in the case of their letters
  give the same match, up to case.  The third search has no \<^verbatim>\<open>IGNORECASE\<close> flag: the
  phrase it finds starts with an upper-case letter.
\<close>

theorem text_patterns_order_and_case:
  "(collect_domains (list_or_empty attendees) [] = Inr domains \<and> external_of env domains = [] \<longrightarrow>
      attendees_to_company env attendees event_summary event_description =
        (case first_match (str_or_empty event_summary @ '' '' @ str_or_empty event_description) of
           Some (Some g) \<Rightarrow>
             if lower (strip g) \<in> stop_words then Inr unknown
             else Inr \<lparr>companyDomain = [], companyName = strip g\<rparr>
         | _ \<Rightarrow> Inr unknown)) \<and>
   (search True pattern_with_for t = Some m \<longrightarrow> first_match t = Some m) \<and>
   (search True pattern_with_for t = None \<and> search True pattern_poc t = Some m \<longrightarrow>
      first_match t = Some m) \<and>
   (search True pattern_with_for t = None \<and> search True pattern_poc t = None \<longrightarrow>
      first_match t = search False pattern_paren t) \<and>
   (lower t = lower t' \<longrightarrow>
      map_option (map_option lower) (search True pattern_with_for t) =
        map_option (map_option lower) (search True pattern_with_for t') \<and>
      map_option (map_option lower) (search True pattern_poc t) =
        map_option (map_option lower) (search True pattern_poc t')) \<and>
   (search False pattern_paren t = Some (Some g') \<longrightarrow> g' \<noteq> [] \<and> is_upper (hd g'))"
proof (intro conjI impI)
  assume "collect_domains (list_or_empty attendees) [] = Inr domains \<and> external_of env domains = []"
  then have "attendees_to_company env attendees event_summary event_description =
        text_stage event_summary event_description"
    using resolver_no_domains by blast
  then show "attendees_to_company env attendees event_summary event_description =
        (case first_match (str_or_empty event_summary @ '' '' @ str_or_empty event_description) of
           Some (Some g) \<Rightarrow>
             if lower (strip g) \<in> stop_words then Inr unknown
             else Inr \<lparr>companyDomain = [], companyName = strip g\<rparr>
         | _ \<Rightarrow> Inr unknown)"
    by (simp only: text_stage_eq)
next
  assume "search True pattern_with_for t = Some m"
  then show "first_match t = Some m" by (simp add: first_match_def)
next
  assume "search True pattern_with_for t = None \<and> search True pattern_poc t = Some m"
  then show "first_match t = Some m" by (simp add: first_match_def)
next
  assume "search True pattern_with_for t = None \<and> search True pattern_poc t = None"
  then show "first_match t = search False pattern_paren t" by (simp add: first_match_def)
next
  assume l: "lower t = lower t'"
  show "map_option (map_option lower) (search True pattern_with_for t) =
        map_option (map_option lower) (search True pattern_with_for t')"
    by (rule search_ignorecase[OF l])
  show "map_option (map_option lower) (search True pattern_poc t) =
        map_option (map_option lower) (search True pattern_poc t')"
    by (rule search_ignorecase[OF l])
next
  assume "search False pattern_paren t = Some (Some g')"
  then show "g' \<noteq> []" "is_upper (hd g')" using search_paren_capital by blast+
qed

theorem text_patterns_order_and_case_witness:
  "attendees_to_company Map.empty None (Some ''Kickoff call WITH beta corp'') None =
     (case first_match (str_or_empty (Some ''Kickoff call WITH beta corp'') @ '' '' @ str_or_empty None) of
        Some (Some g) \<Rightarrow>
          if lower (strip g) \<in> stop_words then Inr unknown
          else Inr \<lparr>companyDomain = [], companyName = strip g\<rparr>
      | _ \<Rightarrow> Inr unknown) \<and>
   first_match ''Kickoff call WITH beta corp '' = Some (Some ''beta corp '') \<and>
   first_match ''see poc- acme '' = Some (Some ''acme '') \<and>
   first_match ''Sync (Acme corp) '' = search False pattern_paren ''Sync (Acme corp) '' \<and>
   map_option (map_option lower) (search True pattern_with_for ''Kickoff call WITH beta corp '') =
     map_option (map_option lower) (search True pattern_with_for ''kickoff CALL with Beta Corp '') \<and>
   map_option (map_option lower) (search True pattern_poc ''Kickoff call WITH beta corp '') =
     map_option (map_option lower) (search True pattern_poc ''kickoff CALL with Beta Corp '') \<and>
   ''Acme corp'' \<noteq> [] \<and> is_upper (hd ''Acme corp'')"
proof -
  have h1: "collect_domains (list_or_empty None) [] = Inr [] \<and> external_of Map.empty [] = []"
    by code_simp
  have h2: "search True pattern_with_for ''Kickoff call WITH beta corp '' = Some (Some ''beta corp '')"
    by code_simp
  have h3: "search True pattern_with_for ''see poc- acme '' = None \<and>
            search True pattern_poc ''see poc- acme '' = Some (Some ''acme '')"
    by code_simp
  have h4: "search True pattern_with_for ''Sync (Acme corp) '' = None \<and>
            search True pattern_poc ''Sync (Acme corp) '' = None"
    by code_simp
  have h5: "lower ''Kickoff call WITH beta corp '' = lower ''kickoff CALL with Beta Corp ''"
    by code_simp
  have h6: "search False pattern_paren ''Sync (Acme corp) '' = Some (Some ''Acme corp'')"
    by code_simp
  note T1 = text_patterns_order_and_case
    [of None "[]" Map.empty "Some ''Kickoff call WITH beta corp''" None
        "''Kickoff call WITH beta corp ''" "Some ''beta corp ''" "''kickoff CALL with Beta Corp ''"]
  note T2 = text_patterns_order_and_case
    [of None "[]" Map.empty None None "''see poc- acme ''" "Some ''acme ''"]
  note T3 = text_patterns_order_and_case
    [of None "[]" Map.empty None None "''Sync (Acme corp) ''" _ _ "''Acme corp''"]
  from T1 h1 have c1: "attendees_to_company Map.empty None (Some ''Kickoff call WITH beta corp'') None =
     (case first_match (str_or_empty (Some ''Kickoff call WITH beta corp'') @ '' '' @ str_or_empty None) of
        Some (Some g) \<Rightarrow>
          if lower (strip g) \<in> stop_words then Inr unknown
          else Inr \<lparr>companyDomain = [], companyName = strip g\<rparr>
      | _ \<Rightarrow> Inr unknown)" by blast
  from T1 h2 have c2: "first_match ''Kickoff call WITH beta corp '' = Some (Some ''beta corp '')"
    by blast
  from T2 h3 have c3: "first_match ''see poc- acme '' = Some (Some ''acme '')" by blast
  from T3 h4 have c4: "first_match ''Sync (Acme corp) '' = search False pattern_paren ''Sync (Acme corp) ''"
    by blast
  from T1 h5 have c5: "map_option (map_option lower) (search True pattern_with_for ''Kickoff call WITH beta corp '') =
     map_option (map_option lower) (search True pattern_with_for ''kickoff CALL with Beta Corp '') \<and>
   map_option (map_option lower) (search True pattern_poc ''Kickoff call WITH beta corp '') =
     map_option (map_option lower) (search True pattern_poc ''kickoff CALL with Beta Corp '')"
    by blast
  from T3 h6 have c6: "''Acme corp'' \<noteq> [] \<and> is_upper (hd ''Acme corp'')" by blast
  from c1 c2 c3 c4 c5 c6 show ?thesis by blast
qed

theorem paren_pattern_is_case_sensitive:
  "attendees_to_company Map.empty None (Some ''Sync (acme corp)'') None = Inr unknown \<and>
   attendees_to_company Map.empty None (Some ''Sync (Acme corp)'') None =
     Inr \<lparr>companyDomain = [], companyName = ''Acme corp''\<rparr>"
  by code_simp

section \<open>The e-mail addresses of an event: properties\<close>

lemma firsts_filter: "firsts (filter P xs) = filter P (firsts xs)"
proof (induction xs)
  case Nil
  then show ?case by simp
next
  case (Cons x xs)
  show ?case
  proof (cases "P x")
    case True
    have "filter (\<lambda>y. y \<noteq> x) (filter P (firsts xs)) = filter P (filter (\<lambda>y. y \<noteq> x) (firsts xs))"
      by (simp add: conj_commute)
    then show ?thesis using True Cons by simp
  next
    case False
    have "filter P (filter (\<lambda>y. y \<noteq> x) (firsts xs)) = filter P (firsts xs)"
      unfolding filter_filter using False by (intro filter_cong) auto
    then show ?thesis using False Cons by simp
  qed
qed

lemma dedup_loop_firsts:
  "dedup_loop emails out seen = out @ firsts [x \<leftarrow> emails. x \<notin> seen]"
proof (induction emails arbitrary: out seen)
  case Nil
  then show ?case by simp
next
  case (Cons em emails)
  show ?case
  proof (cases "em \<in> seen")
    case True
    then show ?thesis using Cons by simp
  next
    case False
    have f: "[x \<leftarrow> emails. x \<notin> insert em seen] = filter (\<lambda>y. y \<noteq> em) [x \<leftarrow> emails. x \<notin> seen]"
      unfolding filter_filter by (intro filter_cong) auto
    have "dedup_loop (em # emails) out seen = dedup_loop emails (out @ [em]) (insert em seen)"
      using False by simp
    also have "\<dots> = (out @ [em]) @ firsts [x \<leftarrow> emails. x \<notin> insert em seen]"
      by (rule Cons.IH)
    also have "\<dots> = out @ em # filter (\<lambda>y. y \<noteq> em) (firsts [x \<leftarrow> emails. x \<notin> seen])"
      unfolding f firsts_filter by simp
    also have "\<dots> = out @ firsts [x \<leftarrow> em # emails. x \<notin> seen]"
      using False by simp
    finally show ?thesis .
  qed
qed

lemma first_index_Cons:
  "first_index (x # xs) y = (if y = x then 0 else Suc (first_index xs y))"
  by (auto simp: first_index_def)

lemma firsts_sorted:
  "sorted_wrt (\<lambda>a b. first_index xs a < first_index xs b) (firsts xs)"
proof (induction xs)
  case Nil
  then show ?case by simp
next
  case (Cons x xs)
  have "sorted_wrt (\<lambda>a b. first_index xs a < first_index xs b) (filter (\<lambda>y. y \<noteq> x) (firsts xs))"
    using Cons by (rule sorted_wrt_filter)
  then have "sorted_wrt (\<lambda>a b. first_index (x # xs) a < first_index (x # xs) b)
               (filter (\<lambda>y. y \<noteq> x) (firsts xs))"
    by (rule sorted_wrt_mono_rel[rotated]) (auto simp: first_index_Cons)
  then show ?case by (auto simp: first_index_Cons)
qed

lemma dict_email_lower: "dict_email d = Inr em \<Longrightarrow> lower em = em"
  by (auto simp: dict_email_def lower_idem split: sum.splits)

lemma attendee_loop_lower:
  "attendee_loop as acc = Inr emails \<Longrightarrow> \<forall>x\<in>set acc. lower x = x \<Longrightarrow> \<forall>x\<in>set emails. lower x = x"
proof (induction as acc rule: attendee_loop.induct)
  case (1 emails)
  then show ?case by simp
next
  case (2 a as emails')
  then show ?case by (auto split: sum.splits if_splits dest: dict_email_lower)
next
  case (3 a as emails')
  then show ?case by (auto simp: lower_idem)
next
  case (4 a as emails')
  then show ?case by simp
qed

lemma info_loop_lower:
  "info_loop infos acc = Inr emails \<Longrightarrow> \<forall>x\<in>set acc. lower x = x \<Longrightarrow> \<forall>x\<in>set emails. lower x = x"
proof (induction infos acc rule: info_loop.induct)
  case (1 emails)
  then show ?case by simp
next
  case (2 info infos emails')
  then show ?case by (auto split: sum.splits if_splits dest: dict_email_lower)
qed

lemma gather_emails_lower:
  assumes "gather_emails e = Inr emails"
  shows "\<forall>x\<in>set emails. lower x = x"
proof -
  obtain em1 where a: "attendee_loop (list_or_empty (ev_attendees e)) [] = Inr em1"
    and i: "info_loop [ev_organizer e, ev_creator e] em1 = Inr emails"
    using assms unfolding gather_emails_def
    by (cases "attendee_loop (list_or_empty (ev_attendees e)) []") (simp_all del: info_loop.simps)
  have "\<forall>x\<in>set em1. lower x = x" using attendee_loop_lower[OF a] by simp
  then show ?thesis by (rule info_loop_lower[OF i])
qed

lemma dict_email_total: "dict_get d ''email'' \<noteq> PyOther True \<Longrightarrow> \<exists>em. dict_email d = Inr em"
  using as_str_or_empty[of "dict_get d ''email''"] by (auto simp: dict_email_def)

lemma attendee_loop_total:
  "\<forall>a\<in>set as. well_typed a \<Longrightarrow> \<exists>emails. attendee_loop as acc = Inr emails"
proof (induction as acc rule: attendee_loop.induct)
  case (2 a as emails')
  then obtain em where "dict_email a = Inr em" using dict_email_total[of a] by auto
  then show ?case using 2 by auto
qed simp_all

lemma info_loop_total:
  "\<forall>info\<in>set infos. well_typed (ADict (case info of None \<Rightarrow> Map.empty | Some d \<Rightarrow> d)) \<Longrightarrow>
     \<exists>emails. info_loop infos acc = Inr emails"
proof (induction infos acc rule: info_loop.induct)
  case (2 info infos emails')
  then obtain em where "dict_email (case info of None \<Rightarrow> Map.empty | Some d \<Rightarrow> d) = Inr em"
    using dict_email_total[of "case info of None \<Rightarrow> Map.empty | Some d \<Rightarrow> d"] by auto
  then show ?case using 2 by auto
qed simp_all

text \<open>
  C9.  \<^verbatim>\<open>collect_event_emails\<close> returns the lower-cased addresses of the attendees, the
  organizer and the creator, each once, in the order of their first appearance in
  the list \<open>emails\<close> that the first two loops gather; no two entries of the result
  are equal up to letter case.  It returns a list whenever every \<^verbatim>\<open>email\<close> entry is
  absent, \<^verbatim>\<open>None\<close>, a \<^verbatim>\<open>str\<close> or a false value.
\<close>

theorem event_emails_lowered_deduplicated:
  "((\<forall>a\<in>set (list_or_empty (ev_attendees e)). well_typed a) \<and>
    (\<forall>info\<in>set [ev_organizer e, ev_creator e].
        well_typed (ADict (case info of None \<Rightarrow> Map.empty | Some d \<Rightarrow> d))) \<longrightarrow>
      (\<exists>out. collect_event_emails e = Inr out)) \<and>
   (collect_event_emails e = Inr out \<longrightarrow>
      (\<exists>emails. gather_emails e = Inr emails \<and> set out = set emails \<and>
         (\<forall>x\<in>set out. lower x = x) \<and> distinct (map lower out) \<and>
         (\<forall>i j. i < j \<and> j < length out \<longrightarrow>
            first_index emails (out ! i) < first_index emails (out ! j))))"
proof (intro conjI impI)
  assume wt: "(\<forall>a\<in>set (list_or_empty (ev_attendees e)). well_typed a) \<and>
    (\<forall>info\<in>set [ev_organizer e, ev_creator e].
        well_typed (ADict (case info of None \<Rightarrow> Map.empty | Some d \<Rightarrow> d)))"
  then obtain em1 where a: "attendee_loop (list_or_empty (ev_attendees e)) [] = Inr em1"
    using attendee_loop_total by blast
  from wt obtain em2 where "info_loop [ev_organizer e, ev_creator e] em1 = Inr em2"
    using info_loop_total by blast
  then show "\<exists>out. collect_event_emails e = Inr out"
    using a by (simp add: collect_event_emails_def gather_emails_def)
next
  assume c: "collect_event_emails e = Inr out"
  then obtain emails where g: "gather_emails e = Inr emails"
    by (cases "gather_emails e") (auto simp: collect_event_emails_def)
  have out: "out = firsts emails"
    using c g by (simp add: collect_event_emails_def dedup_loop_firsts)
  have low: "\<forall>x\<in>set out. lower x = x"
    using gather_emails_lower[OF g] by (simp add: out set_firsts)
  have "map lower out = out" using low by (simp add: map_idI)
  then have d: "distinct (map lower out)" by (simp add: out distinct_firsts)
  have ord: "\<forall>i j. i < j \<and> j < length out \<longrightarrow>
            first_index emails (out ! i) < first_index emails (out ! j)"
    using firsts_sorted[of emails] unfolding out by (auto simp: sorted_wrt_iff_nth_less)
  show "\<exists>emails. gather_emails e = Inr emails \<and> set out = set emails \<and>
         (\<forall>x\<in>set out. lower x = x) \<and> distinct (map lower out) \<and>
         (\<forall>i j. i < j \<and> j < length out \<longrightarrow>
            first_index emails (out ! i) < first_index emails (out ! j))"
    using g low d ord by (auto simp: out set_firsts)
qed

theorem event_emails_lowered_deduplicated_witness:
  "(\<exists>out. collect_event_emails
      \<lparr>ev_attendees = Some [AStr ''A@x.com'', ADict [''email'' \<mapsto> PyStr '' a@X.com ''], AOther ''5'',
                            ADict Map.empty, AStr ''B@x.com''],
       ev_organizer = Some [''email'' \<mapsto> PyStr ''O@y.com''],
       ev_creator = Some [''email'' \<mapsto> PyStr ''b@X.COM'']\<rparr> = Inr out) \<and>
   (\<exists>emails. gather_emails
      \<lparr>ev_attendees = Some [AStr ''A@x.com'', ADict [''email'' \<mapsto> PyStr '' a@X.com ''], AOther ''5'',
                            ADict Map.empty, AStr ''B@x.com''],
       ev_organizer = Some [''email'' \<mapsto> PyStr ''O@y.com''],
       ev_creator = Some [''email'' \<mapsto> PyStr ''b@X.COM'']\<rparr> = Inr emails \<and>
      set [''a@x.com'', ''b@x.com'', ''o@y.com''] = set emails \<and>
      (\<forall>x\<in>set [''a@x.com'', ''b@x.com'', ''o@y.com'']. lower x = x) \<and>
      distinct (map lower [''a@x.com'', ''b@x.com'', ''o@y.com'']) \<and>
      (\<forall>i j. i < j \<and> j < length [''a@x.com'', ''b@x.com'', ''o@y.com''] \<longrightarrow>
         first_index emails ([''a@x.com'', ''b@x.com'', ''o@y.com''] ! i)
           < first_index emails ([''a@x.com'', ''b@x.com'', ''o@y.com''] ! j)))"
proof -
  let ?e = "\<lparr>ev_attendees = Some [AStr ''A@x.com'', ADict [''email'' \<mapsto> PyStr '' a@X.com ''], AOther ''5'',
                            ADict Map.empty, AStr ''B@x.com''],
       ev_organizer = Some [''email'' \<mapsto> PyStr ''O@y.com''],
       ev_creator = Some [''email'' \<mapsto> PyStr ''b@X.COM'']\<rparr>"
  have h1: "(\<forall>a\<in>set (list_or_empty (ev_attendees ?e)). well_typed a) \<and>
    (\<forall>info\<in>set [ev_organizer ?e, ev_creator ?e].
        well_typed (ADict (case info of None \<Rightarrow> Map.empty | Some d \<Rightarrow> d)))"
    by (simp add: list_or_empty_def dict_get_def)
  have h2: "collect_event_emails ?e = Inr [''a@x.com'', ''b@x.com'', ''o@y.com'']"
    by code_simp
  note T = event_emails_lowered_deduplicated [of ?e "[''a@x.com'', ''b@x.com'', ''o@y.com'']"]
  have c1: "\<exists>out. collect_event_emails ?e = Inr out"
    by (rule T[THEN conjunct1, THEN mp, OF h1])
  show ?thesis
    using c1 T[THEN conjunct2, THEN mp, OF h2] by (rule conjI)
qed

end
